theory Spec2Isabelle
  imports Main "HOL-Library.Sublist"
begin

section \<open>Strings\<close>

text \<open>
  Python \<^verbatim>\<open>str\<close> values are modelled as \<^typ>\<open>string\<close>: a list of characters, one
  \<^typ>\<open>char\<close> per code point, restricted to the code points 0..255 (Latin-1), so that
  the o-umlaut of the keyword \<^verbatim>\<open>Hoersaal\<close> (written with o-umlaut in the source) is the single character \<open>0xF6\<close>.
  The character classes below are those of Python's \<^verbatim>\<open>str.isspace\<close> and of the
  \<^verbatim>\<open>re\<close> module's \<^verbatim>\<open>\s\<close>, \<^verbatim>\<open>\d\<close> and \<^verbatim>\<open>\w\<close> on that range.
\<close>

definition isspace :: "char \<Rightarrow> bool" where
  "isspace c = (of_char c \<in> {9, 10, 11, 12, 13, 28, 29, 30, 31, 32, 133, 160 :: nat})"

definition isdigit :: "char \<Rightarrow> bool" where
  "isdigit c = (48 \<le> (of_char c :: nat) \<and> (of_char c :: nat) \<le> 57)"

definition isword :: "char \<Rightarrow> bool" where
  "isword c =
     (let n = (of_char c :: nat) in
      (48 \<le> n \<and> n \<le> 57) \<or> (65 \<le> n \<and> n \<le> 90) \<or> n = 95 \<or> (97 \<le> n \<and> n \<le> 122)
      \<or> n \<in> {170, 178, 179, 181, 185, 186, 188, 189, 190}
      \<or> (192 \<le> n \<and> n \<le> 214) \<or> (216 \<le> n \<and> n \<le> 246) \<or> (248 \<le> n \<and> n \<le> 255))"

text \<open>The exceptions of the Python code that the model can meet; \<open>LibraryError\<close> stands
  for whatever the calendar and timezone libraries raise.\<close>

datatype py_error = IndexError | KeyError | ValueError | OverflowError | LibraryError

text \<open>\<^verbatim>\<open>s.strip()\<close>: leading and trailing whitespace removed.\<close>

definition lstrip :: "string \<Rightarrow> string" where
  "lstrip s = dropWhile isspace s"

definition rstrip :: "string \<Rightarrow> string" where
  "rstrip s = rev (dropWhile isspace (rev s))"

definition strip :: "string \<Rightarrow> string" where
  "strip s = rstrip (lstrip s)"

text \<open>\<^verbatim>\<open>s.count(c)\<close> for a one-character \<^verbatim>\<open>c\<close>.\<close>

definition count_chr :: "string \<Rightarrow> char \<Rightarrow> nat" where
  "count_chr s c = length (filter (\<lambda>x. x = c) s)"

text \<open>\<^verbatim>\<open>s.split(c)\<close> for a one-character separator: never empty, one more piece than
  there are separators.\<close>

fun split_chr :: "char \<Rightarrow> string \<Rightarrow> string list" where
  "split_chr c [] = [[]]"
| "split_chr c (x # xs) =
     (let r = split_chr c xs in if x = c then [] # r else (x # hd r) # tl r)"

text \<open>\<^verbatim>\<open>s.startswith(p)\<close>.\<close>

definition startswith :: "string \<Rightarrow> string \<Rightarrow> bool" where
  "startswith s p = (take (length p) s = p)"

section \<open>Title cleaning\<close>

text \<open>
  \<^verbatim>\<open>clean_title_logic(course_id, raw_title)\<close> of \<^verbatim>\<open>vorlesungen2.py\<close>: an identifier with
  exactly one dot has its title cut at the first hyphen; every other title is only
  stripped.
\<close>

definition clean_title_logic :: "string \<Rightarrow> string \<Rightarrow> string" where
  "clean_title_logic course_id raw_title =
     (let dots = count_chr course_id (CHR ''.'') in
      if dots = 1 \<and> CHR ''-'' \<in> set raw_title
      then strip (hd (split_chr (CHR ''-'') raw_title))
      else strip raw_title)"

text \<open>\<^verbatim>\<open>clean_title_string(title)\<close> of \<^verbatim>\<open>ai_studio_code-3.py\<close>: always cut at the first
  hyphen.\<close>

definition clean_title_string :: "string \<Rightarrow> string" where
  "clean_title_string title =
     (if CHR ''-'' \<in> set title then strip (hd (split_chr (CHR ''-'') title)) else strip title)"


section \<open>Session records\<close>

text \<open>
  The dictionaries built by \<^verbatim>\<open>process_event_block\<close>. The key \<^verbatim>\<open>'id'\<close> is the field
  \<open>ev_id\<close> and \<^verbatim>\<open>'type'\<close> is \<open>ev_type\<close> (\<^verbatim>\<open>'single'\<close> or \<^verbatim>\<open>'recurring'\<close>);
  \<^verbatim>\<open>'date'\<close> is \<^verbatim>\<open>None\<close> when the line carried no date token.
\<close>

record event =
  ev_id :: string
  title :: string
  full_label :: string
  ev_type :: string
  date :: "string option"
  weekday :: string
  start_time :: string
  end_time :: string
  location :: string

text \<open>What an f-string prints for a value that is a string or \<^verbatim>\<open>None\<close>.\<close>

definition fmt_opt :: "string option \<Rightarrow> string" where
  "fmt_opt d = (case d of None \<Rightarrow> ''None'' | Some s \<Rightarrow> s)"

section \<open>The three regular expressions\<close>

text \<open>
  Each pattern of the source is written as the deterministic scanner that Python's
  backtracking matcher amounts to on it: every repetition is greedy and is followed by a
  character its own class excludes, so giving characters back never helps.

  \<^verbatim>\<open>^(\d+(\.\d+)+)\s+(.*)\<close> with \<^verbatim>\<open>re.match\<close>: \<open>dot_groups\<close> is the greedy
  \<^verbatim>\<open>(\.\d+)*\<close>; \<open>id_match\<close> returns groups 1 and 3.
\<close>

function dot_groups :: "string \<Rightarrow> string \<times> string" where
  "dot_groups [] = ([], [])"
| "dot_groups (c # r) =
     (if c = CHR ''.'' \<and> takeWhile isdigit r \<noteq> []
      then (case dot_groups (dropWhile isdigit r) of
              (g, rest) \<Rightarrow> (c # takeWhile isdigit r @ g, rest))
      else ([], c # r))"
  by pat_completeness auto
termination
  by (relation "measure length") (auto simp: le_imp_less_Suc length_dropWhile_le)

definition id_match :: "string \<Rightarrow> (string \<times> string) option" where
  "id_match line =
     (let d1 = takeWhile isdigit line in
      case dot_groups (dropWhile isdigit line) of
        (g, r2) \<Rightarrow>
          if d1 = [] \<or> g = [] \<or> takeWhile isspace r2 = [] then None
          else Some (d1 @ g, takeWhile (\<lambda>c. c \<noteq> CHR 0x0A) (dropWhile isspace r2)))"

text \<open>\<^verbatim>\<open>(Raum|Aula|Hoersaal)\s+([\w\.]+)\<close> (the third keyword with its o-umlaut) with
  \<^verbatim>\<open>re.search\<close>; the result is group 0, the whole match.\<close>

definition keyword_prefix :: "string \<Rightarrow> (string \<times> string) option" where
  "keyword_prefix s =
     (if take 4 s = ''Raum'' then Some (''Raum'', drop 4 s)
      else if take 4 s = ''Aula'' then Some (''Aula'', drop 4 s)
      else if take 7 s = CHR ''H'' # CHR 0xF6 # ''rsaal''
        then Some (CHR ''H'' # CHR 0xF6 # ''rsaal'', drop 7 s)
      else None)"

definition loc_match_at :: "string \<Rightarrow> string option" where
  "loc_match_at s =
     (case keyword_prefix s of
        None \<Rightarrow> None
      | Some (kw, r) \<Rightarrow>
          (let ws = takeWhile isspace r;
               tok = takeWhile (\<lambda>c. isword c \<or> c = CHR ''.'') (dropWhile isspace r)
           in if ws = [] \<or> tok = [] then None else Some (kw @ ws @ tok)))"

fun loc_search :: "string \<Rightarrow> string option" where
  "loc_search [] = None"
| "loc_search (c # cs) =
     (case loc_match_at (c # cs) of Some m \<Rightarrow> Some m | None \<Rightarrow> loc_search cs)"

text \<open>
  The schedule pattern
  \<^verbatim>\<open>(Mo|Di|Mi|Do|Fr|Sa|So)\.?\s+(?:(\d{2}\.\d{2}\.\d{2,4})\s+)?(\d{2}[.:]\d{2})\s*-\s*(\d{2}[.:]\d{2})\<close>
  with \<^verbatim>\<open>re.search\<close>; the result is the four groups.
\<close>

definition weekday_prefix :: "string \<Rightarrow> (string \<times> string) option" where
  "weekday_prefix s =
     (if take 2 s \<in> set [''Mo'', ''Di'', ''Mi'', ''Do'', ''Fr'', ''Sa'', ''So'']
      then Some (take 2 s, drop 2 s) else None)"

fun time_prefix :: "string \<Rightarrow> (string \<times> string) option" where
  "time_prefix (a # b # c # d # e # rest) =
     (if isdigit a \<and> isdigit b \<and> (c = CHR ''.'' \<or> c = CHR '':'') \<and> isdigit d \<and> isdigit e
      then Some ([a, b, c, d, e], rest) else None)"
| "time_prefix _ = None"

fun date_prefix :: "string \<Rightarrow> (string \<times> string) option" where
  "date_prefix (a # b # p # c # d # q # r) =
     (let y = takeWhile isdigit r; r' = dropWhile isdigit r in
      if isdigit a \<and> isdigit b \<and> p = CHR ''.'' \<and> isdigit c \<and> isdigit d \<and> q = CHR ''.''
         \<and> 2 \<le> length y \<and> length y \<le> 4 \<and> takeWhile isspace r' \<noteq> []
      then Some ([a, b, p, c, d, q] @ y, dropWhile isspace r') else None)"
| "date_prefix _ = None"

definition time_match_at :: "string \<Rightarrow> (string \<times> string option \<times> string \<times> string) option" where
  "time_match_at s =
     (case weekday_prefix s of
        None \<Rightarrow> None
      | Some (wd, r0) \<Rightarrow>
          (let r1 = (case r0 of [] \<Rightarrow> r0 | c # r \<Rightarrow> if c = CHR ''.'' then r else r0);
               r2 = dropWhile isspace r1
           in if takeWhile isspace r1 = [] then None
              else case (case date_prefix r2 of
                           Some (d, r) \<Rightarrow> (Some d, r) | None \<Rightarrow> (None, r2)) of
                (date_str, r3) \<Rightarrow>
                  (case time_prefix r3 of
                     None \<Rightarrow> None
                   | Some (t1, r4) \<Rightarrow>
                       (case dropWhile isspace r4 of
                          [] \<Rightarrow> None
                        | h # r6 \<Rightarrow>
                            if h \<noteq> CHR ''-'' then None
                            else (case time_prefix (dropWhile isspace r6) of
                                    None \<Rightarrow> None
                                  | Some (t2, _) \<Rightarrow> Some (wd, date_str, t1, t2))))))"

fun time_search :: "string \<Rightarrow> (string \<times> string option \<times> string \<times> string) option" where
  "time_search [] = None"
| "time_search (c # cs) =
     (case time_match_at (c # cs) of Some m \<Rightarrow> Some m | None \<Rightarrow> time_search cs)"

section \<open>Session extraction\<close>

text \<open>\<^verbatim>\<open>"\n".join(block_lines)\<close> and \<^verbatim>\<open>s.replace('.', ':')\<close>.\<close>

fun join_lines :: "string list \<Rightarrow> string" where
  "join_lines [] = []"
| "join_lines [l] = l"
| "join_lines (l # m # ls) = l @ CHR 0x0A # join_lines (m # ls)"

definition replace_dot :: "string \<Rightarrow> string" where
  "replace_dot s = map (\<lambda>c. if c = CHR ''.'' then CHR '':'' else c) s"

text \<open>The year normalisation of \<^verbatim>\<open>process_event_block\<close> (lines 79-82); \<^verbatim>\<open>parts[2]\<close>
  raises when the string has fewer than two dots.\<close>

definition normalize_year :: "string \<Rightarrow> py_error + string" where
  "normalize_year date_str =
     (case split_chr (CHR ''.'') date_str of
        p0 # p1 # p2 # _ \<Rightarrow>
          Inr (if length p2 = 2 then p0 @ ''.'' @ p1 @ ''.20'' @ p2 else date_str)
      | _ \<Rightarrow> Inl IndexError)"

text \<open>Python's truth value of a string or \<^verbatim>\<open>None\<close>.\<close>

definition truthy :: "string option \<Rightarrow> bool" where
  "truthy d = (case d of None \<Rightarrow> False | Some s \<Rightarrow> s \<noteq> [])"

text \<open>The body of the loop over the lines of one block (\<^verbatim>\<open>vorlesungen2.py\<close> lines
  68-98): the record appended for a line with a schedule match, if any.\<close>

definition process_line :: "string \<Rightarrow> string \<Rightarrow> string \<Rightarrow> string \<Rightarrow> py_error + event option" where
  "process_line course_id final_title default_location line =
     (case time_search line of
        None \<Rightarrow> Inr None
      | Some (wd, date_str, st, en) \<Rightarrow>
          (case (case date_str of
                   None \<Rightarrow> Inr None
                 | Some d \<Rightarrow> (case normalize_year d of Inl err \<Rightarrow> Inl err | Inr d' \<Rightarrow> Inr (Some d'))) of
             Inl err \<Rightarrow> Inl err
           | Inr date_str' \<Rightarrow>
               (let location = (case loc_search line of Some m \<Rightarrow> m | None \<Rightarrow> default_location)
                in Inr (Some
                     \<lparr>ev_id = course_id, title = final_title,
                      full_label = course_id @ '' '' @ final_title,
                      ev_type = (if truthy date_str' then ''single'' else ''recurring''),
                      date = date_str', weekday = wd,
                      start_time = replace_dot st, end_time = replace_dot en,
                      location = location\<rparr>))))"

text \<open>The loop itself, with the list \<^verbatim>\<open>block_events\<close> passed along.\<close>

fun process_lines ::
  "string \<Rightarrow> string \<Rightarrow> string \<Rightarrow> string list \<Rightarrow> event list \<Rightarrow> py_error + event list" where
  "process_lines course_id final_title default_location [] block_events = Inr block_events"
| "process_lines course_id final_title default_location (line # lines) block_events =
     (case process_line course_id final_title default_location line of
        Inl err \<Rightarrow> Inl err
      | Inr None \<Rightarrow> process_lines course_id final_title default_location lines block_events
      | Inr (Some ev) \<Rightarrow>
          process_lines course_id final_title default_location lines (block_events @ [ev]))"

definition process_event_block :: "string list \<Rightarrow> py_error + event list" where
  "process_event_block block_lines =
     (case block_lines of
        [] \<Rightarrow> Inl IndexError
      | header # _ \<Rightarrow>
          (case id_match header of
             None \<Rightarrow> Inr []
           | Some (course_id, raw_title) \<Rightarrow>
               (let final_title = clean_title_logic course_id raw_title;
                    block_text = join_lines block_lines;
                    default_location =
                      (case loc_search block_text of Some m \<Rightarrow> m | None \<Rightarrow> ''TBA'')
                in process_lines course_id final_title default_location block_lines [])))"

text \<open>\<^verbatim>\<open>extract_events(text)\<close>: the segmenting loop with its two variables, then the
  trailing block.\<close>

fun extract_loop ::
  "string list \<Rightarrow> event list \<Rightarrow> string list \<Rightarrow> py_error + (event list \<times> string list)" where
  "extract_loop [] events current_block_lines = Inr (events, current_block_lines)"
| "extract_loop (line # lines) events current_block_lines =
     (if id_match line \<noteq> None then
        (if current_block_lines \<noteq> [] then
           (case process_event_block current_block_lines of
              Inl err \<Rightarrow> Inl err
            | Inr evs \<Rightarrow> extract_loop lines (events @ evs) [line])
         else extract_loop lines events [line])
      else if current_block_lines \<noteq> [] then
        extract_loop lines events (current_block_lines @ [line])
      else extract_loop lines events current_block_lines)"

definition extract_events :: "string \<Rightarrow> py_error + event list" where
  "extract_events text =
     (case extract_loop (split_chr (CHR 0x0A) text) [] [] of
        Inl err \<Rightarrow> Inl err
      | Inr (events, current_block_lines) \<Rightarrow>
          if current_block_lines \<noteq> [] then
            (case process_event_block current_block_lines of
               Inl err \<Rightarrow> Inl err
             | Inr evs \<Rightarrow> Inr (events @ evs))
          else Inr events)"

section \<open>Dates\<close>

text \<open>
  The standard library's \<^verbatim>\<open>date\<close> (and \<^verbatim>\<open>datetime\<close> at midnight) is modelled by its
  proleptic Gregorian ordinal, \<^verbatim>\<open>date.toordinal()\<close>: day 1 is 0001-01-01 and
  \<open>MAXORDINAL\<close> is 9999-12-31. The conversions follow CPython's \<^verbatim>\<open>datetime\<close> module
  (\<^verbatim>\<open>_ymd2ord\<close>, \<^verbatim>\<open>_ord2ymd\<close>, \<^verbatim>\<open>_isoweek1monday\<close>, \<^verbatim>\<open>isocalendar\<close>).
\<close>

type_synonym pydate = nat

definition MAXORDINAL :: nat where
  "MAXORDINAL = 3652059"

definition is_leap :: "nat \<Rightarrow> bool" where
  "is_leap year = (year mod 4 = 0 \<and> (year mod 100 \<noteq> 0 \<or> year mod 400 = 0))"

definition days_before_year :: "nat \<Rightarrow> nat" where
  "days_before_year year = (let y = year - 1 in y * 365 + y div 4 - y div 100 + y div 400)"

definition DAYS_IN_MONTH :: "nat list" where
  "DAYS_IN_MONTH = [0, 31, 28, 31, 30, 31, 30, 31, 31, 30, 31, 30, 31]"

definition DAYS_BEFORE_MONTH :: "nat list" where
  "DAYS_BEFORE_MONTH = [0, 0, 31, 59, 90, 120, 151, 181, 212, 243, 273, 304, 334]"

definition days_in_month :: "nat \<Rightarrow> nat \<Rightarrow> nat" where
  "days_in_month year month = (if month = 2 \<and> is_leap year then 29 else DAYS_IN_MONTH ! month)"

definition days_before_month :: "nat \<Rightarrow> nat \<Rightarrow> nat" where
  "days_before_month year month =
     DAYS_BEFORE_MONTH ! month + (if month > 2 \<and> is_leap year then 1 else 0)"

definition ymd2ord :: "nat \<Rightarrow> nat \<Rightarrow> nat \<Rightarrow> pydate" where
  "ymd2ord year month day = days_before_year year + days_before_month year month + day"

definition ord2ymd :: "pydate \<Rightarrow> nat \<times> nat \<times> nat" where
  "ord2ymd ordinal =
     (let n = ordinal - 1;
          n400 = n div 146097; n = n mod 146097;
          n100 = n div 36524; n = n mod 36524;
          n4 = n div 1461; n = n mod 1461;
          n1 = n div 365; n = n mod 365;
          year = n400 * 400 + 1 + n100 * 100 + n4 * 4 + n1
      in if n1 = 4 \<or> n100 = 4 then (year - 1, 12, 31)
         else
           (let leapyear = (n1 = 3 \<and> (n4 \<noteq> 24 \<or> n100 = 3));
                month = (n + 50) div 32;
                preceding = DAYS_BEFORE_MONTH ! month + (if month > 2 \<and> leapyear then 1 else 0)
            in if preceding > n
               then (year, month - 1,
                     n - (preceding - (DAYS_IN_MONTH ! (month - 1)
                                        + (if month - 1 = 2 \<and> leapyear then 1 else 0))) + 1)
               else (year, month, n - preceding + 1)))"

text \<open>\<^verbatim>\<open>d.weekday()\<close>: Monday is 0.\<close>

definition py_weekday :: "pydate \<Rightarrow> nat" where
  "py_weekday d = (d + 6) mod 7"

text \<open>\<^verbatim>\<open>d.isocalendar()[1]\<close>.\<close>

definition isoweek1monday :: "nat \<Rightarrow> int" where
  "isoweek1monday year =
     (let firstday = int (ymd2ord year 1 1);
          firstweekday = (firstday + 6) mod 7;
          week1monday = firstday - firstweekday
      in if firstweekday > 3 then week1monday + 7 else week1monday)"

definition iso_week :: "pydate \<Rightarrow> nat" where
  "iso_week d =
     (let year = fst (ord2ymd d);
          today = int d;
          week = (today - isoweek1monday year) div 7
      in if week < 0 then nat ((today - isoweek1monday (year - 1)) div 7 + 1)
         else if week \<ge> 52 \<and> today \<ge> isoweek1monday (year + 1) then 1
         else nat (week + 1))"

text \<open>\<^verbatim>\<open>d + timedelta(days=k)\<close>: raises \<^verbatim>\<open>OverflowError\<close> beyond 9999-12-31.\<close>

definition date_add :: "pydate \<Rightarrow> nat \<Rightarrow> py_error + pydate" where
  "date_add d k = (if d + k \<le> MAXORDINAL then Inr (d + k) else Inl OverflowError)"

section \<open>Formatting and parsing dates\<close>

text \<open>
  \<^verbatim>\<open>d.strftime('%d.%m.%Y')\<close>: day and month zero-filled to two digits, the year in
  decimal as the C library prints it (not zero-filled on Linux).
\<close>

definition digit_chr :: "nat \<Rightarrow> char" where
  "digit_chr n = ''0123456789'' ! n"

definition digit_val :: "char \<Rightarrow> nat" where
  "digit_val c = of_char c - 48"

definition pad2 :: "nat \<Rightarrow> string" where
  "pad2 n = [digit_chr (n div 10), digit_chr (n mod 10)]"

fun str_nat :: "nat \<Rightarrow> string" where
  "str_nat n = (if n < 10 then [digit_chr n] else str_nat (n div 10) @ [digit_chr (n mod 10)])"

definition strftime_date :: "pydate \<Rightarrow> string" where
  "strftime_date d =
     (case ord2ymd d of (year, month, day) \<Rightarrow> pad2 day @ ''.'' @ pad2 month @ ''.'' @ str_nat year)"

text \<open>
  \<^verbatim>\<open>datetime.strptime\<close> turns the format into a regular expression, matches it at the
  start of the string, rejects unconverted trailing text and builds the date, which fails
  for a day the month does not have and for year 0. The directive patterns are
  \<^verbatim>\<open>%d = 3[0-1]|[1-2]\d|0[1-9]|[1-9]| [1-9]\<close>, \<^verbatim>\<open>%m = 1[0-2]|0[1-9]|[1-9]\<close>,
  \<^verbatim>\<open>%Y = \d\d\d\d\<close>, \<^verbatim>\<open>%H = 2[0-3]|[0-1]\d|\d\<close>, \<^verbatim>\<open>%M = [0-5]\d|\d\<close>; a blank of the format
  is \<^verbatim>\<open>\s+\<close>. Every failure is a \<^verbatim>\<open>ValueError\<close>, here \<open>None\<close>.
\<close>

definition digits_val :: "string \<Rightarrow> nat" where
  "digits_val s = foldl (\<lambda>v c. v * 10 + digit_val c) 0 s"

definition parse_day :: "string \<Rightarrow> nat option" where
  "parse_day D =
     (case D of
        [b] \<Rightarrow> if isdigit b \<and> b \<noteq> CHR ''0'' then Some (digit_val b) else None
      | [a, b] \<Rightarrow>
          if a = CHR ''3'' \<and> (b = CHR ''0'' \<or> b = CHR ''1'') then Some (30 + digit_val b)
          else if (a = CHR ''1'' \<or> a = CHR ''2'') \<and> isdigit b
            then Some (10 * digit_val a + digit_val b)
          else if (a = CHR ''0'' \<or> a = CHR '' '') \<and> isdigit b \<and> b \<noteq> CHR ''0''
            then Some (digit_val b)
          else None
      | _ \<Rightarrow> None)"

definition parse_month :: "string \<Rightarrow> nat option" where
  "parse_month M =
     (case M of
        [b] \<Rightarrow> if isdigit b \<and> b \<noteq> CHR ''0'' then Some (digit_val b) else None
      | [a, b] \<Rightarrow>
          if a = CHR ''1'' \<and> isdigit b \<and> digit_val b \<le> 2 then Some (10 + digit_val b)
          else if a = CHR ''0'' \<and> isdigit b \<and> b \<noteq> CHR ''0'' then Some (digit_val b)
          else None
      | _ \<Rightarrow> None)"

definition parse_hour :: "string \<Rightarrow> nat option" where
  "parse_hour H =
     (case H of
        [b] \<Rightarrow> if isdigit b then Some (digit_val b) else None
      | [a, b] \<Rightarrow>
          if a = CHR ''2'' \<and> isdigit b \<and> digit_val b \<le> 3 then Some (20 + digit_val b)
          else if (a = CHR ''0'' \<or> a = CHR ''1'') \<and> isdigit b
            then Some (10 * digit_val a + digit_val b)
          else None
      | _ \<Rightarrow> None)"

definition parse_minute :: "string \<Rightarrow> nat option" where
  "parse_minute M =
     (case M of
        [b] \<Rightarrow> if isdigit b then Some (digit_val b) else None
      | [a, b] \<Rightarrow>
          if isdigit a \<and> digit_val a \<le> 5 \<and> isdigit b then Some (10 * digit_val a + digit_val b)
          else None
      | _ \<Rightarrow> None)"

text \<open>The part \<^verbatim>\<open>%d.%m.%Y\<close>: day, month and year read, and the rest of the string.\<close>

definition parse_dmy_prefix :: "string \<Rightarrow> ((nat \<times> nat \<times> nat) \<times> string) option" where
  "parse_dmy_prefix s =
     (case dropWhile (\<lambda>c. c \<noteq> CHR ''.'') s of
        [] \<Rightarrow> None
      | _ # r1 \<Rightarrow>
          (case dropWhile (\<lambda>c. c \<noteq> CHR ''.'') r1 of
             [] \<Rightarrow> None
           | _ # r3 \<Rightarrow>
               (case parse_day (takeWhile (\<lambda>c. c \<noteq> CHR ''.'') s) of
                  None \<Rightarrow> None
                | Some day \<Rightarrow>
                    (case parse_month (takeWhile (\<lambda>c. c \<noteq> CHR ''.'') r1) of
                       None \<Rightarrow> None
                     | Some month \<Rightarrow>
                         if length (take 4 r3) = 4 \<and> (\<forall>c\<in>set (take 4 r3). isdigit c)
                         then Some ((day, month, digits_val (take 4 r3)), drop 4 r3)
                         else None))))"

text \<open>The part \<^verbatim>\<open>\s+%H:%M\<close> up to the end of the string.\<close>

definition parse_hm_tail :: "string \<Rightarrow> (nat \<times> nat) option" where
  "parse_hm_tail s =
     (let r = dropWhile isspace s in
      if takeWhile isspace s = [] then None
      else case dropWhile (\<lambda>c. c \<noteq> CHR '':'') r of
             [] \<Rightarrow> None
           | _ # M \<Rightarrow>
               (case parse_hour (takeWhile (\<lambda>c. c \<noteq> CHR '':'') r) of
                  None \<Rightarrow> None
                | Some h \<Rightarrow>
                    (case parse_minute M of None \<Rightarrow> None | Some m \<Rightarrow> Some (h, m))))"

definition valid_ymd :: "nat \<Rightarrow> nat \<Rightarrow> nat \<Rightarrow> bool" where
  "valid_ymd year month day = (1 \<le> year \<and> day \<le> days_in_month year month)"

text \<open>\<^verbatim>\<open>datetime.strptime(s, '%d.%m.%Y')\<close>, as the date it yields.\<close>

definition strptime_date :: "string \<Rightarrow> pydate option" where
  "strptime_date s =
     (case parse_dmy_prefix s of
        None \<Rightarrow> None
      | Some ((day, month, year), rest) \<Rightarrow>
          if rest = [] \<and> valid_ymd year month day then Some (ymd2ord year month day) else None)"

record datetime =
  dt_date :: pydate
  dt_hour :: nat
  dt_minute :: nat

text \<open>\<^verbatim>\<open>datetime.strptime(s, '%d.%m.%Y %H:%M')\<close>.\<close>

definition strptime_datetime :: "string \<Rightarrow> datetime option" where
  "strptime_datetime s =
     (case parse_dmy_prefix s of
        None \<Rightarrow> None
      | Some ((day, month, year), rest) \<Rightarrow>
          (case parse_hm_tail rest of
             None \<Rightarrow> None
           | Some (h, m) \<Rightarrow>
               if valid_ymd year month day
               then Some \<lparr>dt_date = ymd2ord year month day, dt_hour = h, dt_minute = m\<rparr>
               else None))"

section \<open>Holiday inference\<close>

text \<open>
  \<^verbatim>\<open>detect_holiday_weeks(events, semester_start, semester_end)\<close>. The first loop
  carries \<^verbatim>\<open>active_weeks\<close> and \<^verbatim>\<open>single_events_found\<close>; the flag is set before the date
  is parsed, and a date that does not parse is passed over.
\<close>

fun collect_weeks :: "event list \<Rightarrow> nat set \<Rightarrow> bool \<Rightarrow> nat set \<times> bool" where
  "collect_weeks [] active_weeks single_events_found = (active_weeks, single_events_found)"
| "collect_weeks (e # es) active_weeks single_events_found =
     (if ev_type e = ''single'' \<and> truthy (date e) then
        (case strptime_date (fmt_opt (date e)) of
           Some dt \<Rightarrow> collect_weeks es (insert (iso_week dt) active_weeks) True
         | None \<Rightarrow> collect_weeks es active_weeks True)
      else collect_weeks es active_weeks single_events_found)"

text \<open>The second loop walks from \<^verbatim>\<open>semester_start\<close> in steps of seven days.\<close>

function holiday_loop :: "nat set \<Rightarrow> pydate \<Rightarrow> pydate \<Rightarrow> nat list \<Rightarrow> py_error + nat list" where
  "holiday_loop active_weeks current semester_end holiday_weeks =
     (if current \<le> semester_end then
        (let wk = iso_week current;
             holiday_weeks' = (if wk \<notin> active_weeks then holiday_weeks @ [wk] else holiday_weeks)
         in case date_add current 7 of
              Inl err \<Rightarrow> Inl err
            | Inr current' \<Rightarrow> holiday_loop active_weeks current' semester_end holiday_weeks')
      else Inr holiday_weeks)"
  by pat_completeness auto
termination
  by (relation "measure (\<lambda>(a, c, e, h). e + 1 - c)") (auto simp: date_add_def split: if_splits)

definition detect_holiday_weeks :: "event list \<Rightarrow> pydate \<Rightarrow> pydate \<Rightarrow> py_error + nat list" where
  "detect_holiday_weeks events semester_start semester_end =
     (case collect_weeks events {} False of
        (active_weeks, single_events_found) \<Rightarrow>
          if \<not> single_events_found then Inr []
          else (case holiday_loop active_weeks semester_start semester_end [] of
                  Inl err \<Rightarrow> Inl err
                | Inr holiday_weeks \<Rightarrow> Inr (sort (remdups holiday_weeks))))"

section \<open>Occurrence expansion\<close>

text \<open>
  \<^verbatim>\<open>generate_ics(selected_events, semester_start, semester_end, holiday_weeks)\<close>.
  An occurrence is what the code assigns to an \<^verbatim>\<open>Event\<close>: name, location, begin and end.
  The calendar \<^verbatim>\<open>c.events\<close> is the list of the occurrences added, in the order they are
  added, and it is the result (the source returns its serialisation).

  The calendar and timezone libraries are not part of the repository. Their calls
  (\<^verbatim>\<open>tz.localize\<close> and the assignments to \<^verbatim>\<open>Event.begin\<close> and \<^verbatim>\<open>Event.end\<close>) may raise;
  whether they succeed for a given begin and end is the parameter \<open>accepts\<close>.
\<close>

record occurrence =
  occ_name :: string
  occ_location :: string
  occ_begin :: datetime
  occ_end :: datetime

definition weekday_map :: "string \<Rightarrow> nat option" where
  "weekday_map =
     map_of [(''Mo'', 0), (''Di'', 1), (''Mi'', 2), (''Do'', 3), (''Fr'', 4), (''Sa'', 5), (''So'', 6)]"

text \<open>The event built from a record and the text of a date: both strings are parsed with
  \<^verbatim>\<open>'%d.%m.%Y %H:%M'\<close>, then the event is filled.\<close>

definition make_event ::
  "(datetime \<Rightarrow> datetime \<Rightarrow> bool) \<Rightarrow> event \<Rightarrow> string \<Rightarrow> py_error + occurrence" where
  "make_event accepts ev date_text =
     (case strptime_datetime (date_text @ '' '' @ start_time ev) of
        None \<Rightarrow> Inl ValueError
      | Some start_dt \<Rightarrow>
          (case strptime_datetime (date_text @ '' '' @ end_time ev) of
             None \<Rightarrow> Inl ValueError
           | Some end_dt \<Rightarrow>
               if accepts start_dt end_dt
               then Inr \<lparr>occ_name = full_label ev, occ_location = location ev,
                         occ_begin = start_dt, occ_end = end_dt\<rparr>
               else Inl LibraryError))"

text \<open>\<^verbatim>\<open>while current.weekday() != target_weekday: current += timedelta(days=1)\<close>.\<close>

function advance :: "pydate \<Rightarrow> nat \<Rightarrow> py_error + pydate" where
  "advance current target_weekday =
     (if py_weekday current \<noteq> target_weekday then
        (case date_add current 1 of
           Inl err \<Rightarrow> Inl err
         | Inr current' \<Rightarrow> advance current' target_weekday)
      else Inr current)"
  by pat_completeness auto
termination
  by (relation "measure (\<lambda>(c, t). MAXORDINAL - c)") (auto simp: date_add_def split: if_splits)

text \<open>The weekly loop for one recurring record. The calendar is passed along; the first
  component of the result is the exception that ended the loop, if any.\<close>

function recur_loop ::
  "(datetime \<Rightarrow> datetime \<Rightarrow> bool) \<Rightarrow> event \<Rightarrow> nat list \<Rightarrow> pydate \<Rightarrow> pydate \<Rightarrow> occurrence list
     \<Rightarrow> py_error option \<times> occurrence list" where
  "recur_loop accepts ev holiday_weeks end_dt_global current c =
     (if current \<le> end_dt_global then
        (if iso_week current \<in> set holiday_weeks then
           (case date_add current 7 of
              Inl err \<Rightarrow> (Some err, c)
            | Inr current' \<Rightarrow> recur_loop accepts ev holiday_weeks end_dt_global current' c)
         else
           (case make_event accepts ev (strftime_date current) of
              Inl err \<Rightarrow> (Some err, c)
            | Inr e \<Rightarrow>
                (case date_add current 7 of
                   Inl err \<Rightarrow> (Some err, c @ [e])
                 | Inr current' \<Rightarrow>
                     recur_loop accepts ev holiday_weeks end_dt_global current' (c @ [e]))))
      else (None, c))"
  by pat_completeness auto
termination
  by (relation "measure (\<lambda>(a, ev, h, e, cur, c). e + 1 - cur)")
     (auto simp: date_add_def split: if_splits)

text \<open>The body of the \<^verbatim>\<open>try\<close> for one record.\<close>

definition process_event ::
  "(datetime \<Rightarrow> datetime \<Rightarrow> bool) \<Rightarrow> pydate \<Rightarrow> pydate \<Rightarrow> nat list \<Rightarrow> event \<Rightarrow> occurrence list
     \<Rightarrow> py_error option \<times> occurrence list" where
  "process_event accepts start_dt_global end_dt_global holiday_weeks ev c =
     (if ev_type ev = ''single'' then
        (case make_event accepts ev (fmt_opt (date ev)) of
           Inl err \<Rightarrow> (Some err, c)
         | Inr e \<Rightarrow> (None, c @ [e]))
      else if ev_type ev = ''recurring'' then
        (case weekday_map (weekday ev) of
           None \<Rightarrow> (Some KeyError, c)
         | Some target_weekday \<Rightarrow>
             (case advance start_dt_global target_weekday of
                Inl err \<Rightarrow> (Some err, c)
              | Inr current \<Rightarrow>
                  recur_loop accepts ev holiday_weeks end_dt_global current c))
      else (None, c))"

text \<open>The loop over the records: \<^verbatim>\<open>except Exception: continue\<close> drops the exception and
  keeps the calendar as it is at that moment.\<close>

fun generate_loop ::
  "(datetime \<Rightarrow> datetime \<Rightarrow> bool) \<Rightarrow> pydate \<Rightarrow> pydate \<Rightarrow> nat list \<Rightarrow> event list \<Rightarrow> occurrence list
     \<Rightarrow> occurrence list" where
  "generate_loop accepts start_dt_global end_dt_global holiday_weeks [] c = c"
| "generate_loop accepts start_dt_global end_dt_global holiday_weeks (ev # evs) c =
     generate_loop accepts start_dt_global end_dt_global holiday_weeks evs
       (snd (process_event accepts start_dt_global end_dt_global holiday_weeks ev c))"

definition generate_ics ::
  "(datetime \<Rightarrow> datetime \<Rightarrow> bool) \<Rightarrow> event list \<Rightarrow> pydate \<Rightarrow> pydate \<Rightarrow> nat list \<Rightarrow> occurrence list" where
  "generate_ics accepts selected_events semester_start semester_end holiday_weeks =
     generate_loop accepts semester_start semester_end holiday_weeks selected_events []"

section \<open>Prefix filter\<close>

text \<open>
  The module-level filter of both files:
  \<^verbatim>\<open>search_ids = [s.strip() for s in query.split(',') if s.strip()]\<close>, then for each
  token in turn every record whose identifier starts with it.
\<close>

definition search_ids :: "string \<Rightarrow> string list" where
  "search_ids query = filter (\<lambda>s. s \<noteq> []) (map strip (split_chr (CHR '','') query))"

fun extend_matches :: "event list \<Rightarrow> string list \<Rightarrow> event list \<Rightarrow> event list" where
  "extend_matches all_events [] matched_events = matched_events"
| "extend_matches all_events (s_id # rest) matched_events =
     extend_matches all_events rest
       (matched_events @ filter (\<lambda>e. startswith (ev_id e) s_id) all_events)"

definition matched_events :: "event list \<Rightarrow> string \<Rightarrow> event list" where
  "matched_events all_events query = extend_matches all_events (search_ids query) []"

section \<open>Deduplication before emission\<close>





section \<open>Notions used to state the properties\<close>

text \<open>
  These definitions follow the words of the specification, not the code. The active set is
  the set of ISO week numbers of the dates of one-off records that parse; the stride dates
  are the dates \<open>start\<close>, \<open>start + 7\<close>, ... up to and including the end of the range.
\<close>

definition active_weeks_of :: "event list \<Rightarrow> nat set" where
  "active_weeks_of events =
     {iso_week dt | e dt. e \<in> set events \<and> ev_type e = ''single'' \<and> truthy (date e)
                        \<and> strptime_date (fmt_opt (date e)) = Some dt}"

definition stride_dates :: "pydate \<Rightarrow> pydate \<Rightarrow> pydate list" where
  "stride_dates start end_date = map (\<lambda>k. start + 7 * k) [0 ..< (end_date + 7 - start) div 7]"

text \<open>The last stride date: the last of the dates \<open>start\<close>, \<open>start + 7\<close>, ... that is not after
  the end of the range (for a range that is not empty).\<close>

definition last_stride :: "pydate \<Rightarrow> pydate \<Rightarrow> pydate" where
  "last_stride start end_date = start + 7 * ((end_date - start) div 7)"

text \<open>
  The month and day part of \<open>ord2ymd\<close> on its own, as a function of the day of the year
  (from 0) and the leap flag, and the conditions under which year, month and day form a date.
  They serve to state that \<open>ord2ymd\<close> and \<open>ymd2ord\<close> are inverse to each other.
\<close>

definition month_day :: "nat \<Rightarrow> bool \<Rightarrow> nat \<times> nat" where
  "month_day n leapyear =
     (let month = (n + 50) div 32;
          preceding = DAYS_BEFORE_MONTH ! month + (if month > 2 \<and> leapyear then 1 else 0)
      in if preceding > n
         then (month - 1,
               n - (preceding - (DAYS_IN_MONTH ! (month - 1)
                                  + (if month - 1 = 2 \<and> leapyear then 1 else 0))) + 1)
         else (month, n - preceding + 1))"

definition dim_leap :: "bool \<Rightarrow> nat \<Rightarrow> nat" where
  "dim_leap l m = (if m = 2 \<and> l then 29 else DAYS_IN_MONTH ! m)"

definition dbm_leap :: "bool \<Rightarrow> nat \<Rightarrow> nat" where
  "dbm_leap l m = DAYS_BEFORE_MONTH ! m + (if m > 2 \<and> l then 1 else 0)"

definition md_ok :: "nat \<Rightarrow> bool \<Rightarrow> nat \<times> nat \<Rightarrow> bool" where
  "md_ok n l md = (1 \<le> fst md \<and> fst md \<le> 12 \<and> 1 \<le> snd md \<and> snd md \<le> dim_leap l (fst md)
                    \<and> dbm_leap l (fst md) + snd md = n + 1)"

definition valid_date :: "nat \<Rightarrow> nat \<Rightarrow> nat \<Rightarrow> bool" where
  "valid_date y m d = (1 \<le> y \<and> 1 \<le> m \<and> m \<le> 12 \<and> 1 \<le> d \<and> d \<le> days_in_month y m)"

text \<open>An identifier as the header pattern yields it: digits and dots only, not empty.\<close>

definition id_chars :: "string \<Rightarrow> bool" where
  "id_chars s = (s \<noteq> [] \<and> (\<forall>c\<in>set s. isdigit c \<or> c = CHR ''.''))"

section \<open>Example records\<close>

definition slot_a :: event where
  "slot_a = \<lparr>ev_id = ''1.3.1'', title = ''Seminar A'', full_label = ''1.3.1 Seminar A'',
     ev_type = ''recurring'', date = None, weekday = ''Di'', start_time = ''10:00'',
     end_time = ''12:00'', location = ''Raum A1''\<rparr>"


text \<open>A block of two lines, which yields the record \<open>slot_a\<close>.\<close>

definition sample_header :: string where
  "sample_header = ''1.3.1 Seminar A''"

definition sample_line :: string where
  "sample_line = ''Di 10:00-12:00 Raum A1''"

text \<open>One-off records: one with a date no calendar has, three in the ISO weeks 2, 4 and
  6 of 2024.\<close>

definition one_off :: "string \<Rightarrow> event" where
  "one_off d = slot_a\<lparr>ev_type := ''single'', date := Some d, weekday := ''Di''\<rparr>"

definition malformed_one_off :: event where
  "malformed_one_off = one_off ''31.02.2024''"

definition weeks_2_4_6 :: "event list" where
  "weeks_2_4_6 = [one_off ''09.01.2024'', one_off ''23.01.2024'', one_off ''06.02.2024'']"

declare holiday_loop.simps [simp del] advance.simps [simp del] recur_loop.simps [simp del]
  str_nat.simps [simp del]

section \<open>Properties of the string operations\<close>

lemma split_chr_nonempty: "split_chr c s \<noteq> []"
  by (induction s) (auto simp: Let_def)

lemma hd_split_chr: "hd (split_chr c s) = takeWhile (\<lambda>x. x \<noteq> c) s"
  by (induction s) (auto simp: Let_def)

lemma length_split_chr: "length (split_chr c s) = Suc (count_chr s c)"
proof (induction s)
  case Nil
  show ?case by (simp add: count_chr_def)
next
  case (Cons x xs)
  have "split_chr c xs \<noteq> []" by (rule split_chr_nonempty)
  then have "length (tl (split_chr c xs)) = count_chr xs c"
    using Cons.IH by (cases "split_chr c xs") simp_all
  then show ?case using Cons.IH by (simp add: Let_def count_chr_def)
qed

lemma startswith_refl: "startswith s s"
  by (simp add: startswith_def)


lemma isdigit_not_space: "isdigit c \<Longrightarrow> \<not> isspace c"
  by (auto simp: isdigit_def isspace_def)

lemma isdigit_not_comma: "isdigit c \<Longrightarrow> c \<noteq> CHR '',''"
  by (auto simp: isdigit_def)

lemma isdigit_not_dot: "isdigit c \<Longrightarrow> c \<noteq> CHR ''.''"
  by (auto simp: isdigit_def)

lemma dot_not_space: "\<not> isspace (CHR ''.'')"
  by (simp add: isspace_def)

section \<open>Properties of the deduplication loop\<close>







section \<open>Evaluating the calendar\<close>

lemmas cal_defs = ymd2ord_def ord2ymd_def days_before_year_def days_before_month_def
  days_in_month_def is_leap_def DAYS_IN_MONTH_def DAYS_BEFORE_MONTH_def

lemmas parse_defs = parse_dmy_prefix_def parse_hm_tail_def parse_day_def parse_month_def
  parse_hour_def parse_minute_def digits_val_def digit_val_def isdigit_def isspace_def
  valid_ymd_def

lemma ymd2ord_2024:
  "ymd2ord 2024 1 1 = 738886" "ymd2ord 2024 1 9 = 738894" "ymd2ord 2024 1 23 = 738908"
  "ymd2ord 2024 2 6 = 738922" "ymd2ord 2024 2 11 = 738927" "ymd2ord 9999 12 31 = MAXORDINAL"
  by (simp_all add: cal_defs MAXORDINAL_def)

lemma ord2ymd_2024:
  "ord2ymd 738886 = (2024, 1, 1)" "ord2ymd 738893 = (2024, 1, 8)" "ord2ymd 738900 = (2024, 1, 15)"
  "ord2ymd 738907 = (2024, 1, 22)" "ord2ymd 738914 = (2024, 1, 29)" "ord2ymd 738921 = (2024, 2, 5)"
  "ord2ymd 738887 = (2024, 1, 2)" "ord2ymd 738894 = (2024, 1, 9)" "ord2ymd 738901 = (2024, 1, 16)"
  "ord2ymd 738908 = (2024, 1, 23)" "ord2ymd 738915 = (2024, 1, 30)" "ord2ymd 738922 = (2024, 2, 6)"
  "ord2ymd 738890 = (2024, 1, 5)"
  by (simp_all add: cal_defs Let_def)

lemma isoweek1monday_2024: "isoweek1monday 2024 = 738886"
  by (simp add: cal_defs isoweek1monday_def Let_def)

lemma iso_week_in_2024:
  "fst (ord2ymd d) = 2024 \<Longrightarrow> 738886 \<le> d \<Longrightarrow> d < 739243 \<Longrightarrow> iso_week d = (d - 738886) div 7 + 1"
proof -
  assume y: "fst (ord2ymd d) = 2024" and a: "738886 \<le> d" "d < 739243"
  have "(int d - 738886) div 7 < 52" using a by simp
  moreover have "0 \<le> (int d - 738886) div 7" using a by simp
  moreover have "nat ((int d - 738886) div 7 + 1) = (d - 738886) div 7 + 1"
    using a by (simp add: nat_add_distrib nat_div_distrib nat_diff_distrib)
  ultimately show ?thesis by (simp add: iso_week_def y isoweek1monday_2024 Let_def)
qed

lemma iso_week_2024:
  "iso_week 738886 = 1" "iso_week 738893 = 2" "iso_week 738900 = 3"
  "iso_week 738907 = 4" "iso_week 738914 = 5" "iso_week 738921 = 6"
  "iso_week 738887 = 1" "iso_week 738894 = 2" "iso_week 738901 = 3"
  "iso_week 738908 = 4" "iso_week 738915 = 5" "iso_week 738922 = 6"
  "iso_week 738890 = 1"
  by (simp_all add: iso_week_in_2024 ord2ymd_2024)


section \<open>The calendar: conversions are inverse, formatted dates parse\<close>

lemmas md_defs = month_day_def md_ok_def dim_leap_def dbm_leap_def DAYS_IN_MONTH_def
  DAYS_BEFORE_MONTH_def Let_def

lemma month_day_case_1:
  assumes "(n + 50) div 32 = 1" and "n \<le> 364 \<or> (l \<and> n \<le> 365)"
  shows "md_ok n l (month_day n l)"
proof -
  have b: "0 \<le> n" "n \<le> 13" using assms(1) by arith+
  show ?thesis
  proof (cases l)
    case True
    then show ?thesis using b assms by (simp add: md_defs) arith?
  next
    case False
    then show ?thesis using b assms by (simp add: md_defs) arith?
  qed
qed

lemma month_day_case_2:
  assumes "(n + 50) div 32 = 2" and "n \<le> 364 \<or> (l \<and> n \<le> 365)"
  shows "md_ok n l (month_day n l)"
proof -
  have b: "14 \<le> n" "n \<le> 45" using assms(1) by arith+
  show ?thesis
  proof (cases l)
    case True
    then show ?thesis using b assms by (simp add: md_defs) arith?
  next
    case False
    then show ?thesis using b assms by (simp add: md_defs) arith?
  qed
qed

lemma month_day_case_3:
  assumes "(n + 50) div 32 = 3" and "n \<le> 364 \<or> (l \<and> n \<le> 365)"
  shows "md_ok n l (month_day n l)"
proof -
  have b: "46 \<le> n" "n \<le> 77" using assms(1) by arith+
  show ?thesis
  proof (cases l)
    case True
    then show ?thesis using b assms by (simp add: md_defs) arith?
  next
    case False
    then show ?thesis using b assms by (simp add: md_defs) arith?
  qed
qed

lemma month_day_case_4:
  assumes "(n + 50) div 32 = 4" and "n \<le> 364 \<or> (l \<and> n \<le> 365)"
  shows "md_ok n l (month_day n l)"
proof -
  have b: "78 \<le> n" "n \<le> 109" using assms(1) by arith+
  show ?thesis
  proof (cases l)
    case True
    then show ?thesis using b assms by (simp add: md_defs) arith?
  next
    case False
    then show ?thesis using b assms by (simp add: md_defs) arith?
  qed
qed

lemma month_day_case_5:
  assumes "(n + 50) div 32 = 5" and "n \<le> 364 \<or> (l \<and> n \<le> 365)"
  shows "md_ok n l (month_day n l)"
proof -
  have b: "110 \<le> n" "n \<le> 141" using assms(1) by arith+
  show ?thesis
  proof (cases l)
    case True
    then show ?thesis using b assms by (simp add: md_defs) arith?
  next
    case False
    then show ?thesis using b assms by (simp add: md_defs) arith?
  qed
qed

lemma month_day_case_6:
  assumes "(n + 50) div 32 = 6" and "n \<le> 364 \<or> (l \<and> n \<le> 365)"
  shows "md_ok n l (month_day n l)"
proof -
  have b: "142 \<le> n" "n \<le> 173" using assms(1) by arith+
  show ?thesis
  proof (cases l)
    case True
    then show ?thesis using b assms by (simp add: md_defs) arith?
  next
    case False
    then show ?thesis using b assms by (simp add: md_defs) arith?
  qed
qed

lemma month_day_case_7:
  assumes "(n + 50) div 32 = 7" and "n \<le> 364 \<or> (l \<and> n \<le> 365)"
  shows "md_ok n l (month_day n l)"
proof -
  have b: "174 \<le> n" "n \<le> 205" using assms(1) by arith+
  show ?thesis
  proof (cases l)
    case True
    then show ?thesis using b assms by (simp add: md_defs) arith?
  next
    case False
    then show ?thesis using b assms by (simp add: md_defs) arith?
  qed
qed

lemma month_day_case_8:
  assumes "(n + 50) div 32 = 8" and "n \<le> 364 \<or> (l \<and> n \<le> 365)"
  shows "md_ok n l (month_day n l)"
proof -
  have b: "206 \<le> n" "n \<le> 237" using assms(1) by arith+
  show ?thesis
  proof (cases l)
    case True
    then show ?thesis using b assms by (simp add: md_defs) arith?
  next
    case False
    then show ?thesis using b assms by (simp add: md_defs) arith?
  qed
qed

lemma month_day_case_9:
  assumes "(n + 50) div 32 = 9" and "n \<le> 364 \<or> (l \<and> n \<le> 365)"
  shows "md_ok n l (month_day n l)"
proof -
  have b: "238 \<le> n" "n \<le> 269" using assms(1) by arith+
  show ?thesis
  proof (cases l)
    case True
    then show ?thesis using b assms by (simp add: md_defs) arith?
  next
    case False
    then show ?thesis using b assms by (simp add: md_defs) arith?
  qed
qed

lemma month_day_case_10:
  assumes "(n + 50) div 32 = 10" and "n \<le> 364 \<or> (l \<and> n \<le> 365)"
  shows "md_ok n l (month_day n l)"
proof -
  have b: "270 \<le> n" "n \<le> 301" using assms(1) by arith+
  show ?thesis
  proof (cases l)
    case True
    then show ?thesis using b assms by (simp add: md_defs) arith?
  next
    case False
    then show ?thesis using b assms by (simp add: md_defs) arith?
  qed
qed

lemma month_day_case_11:
  assumes "(n + 50) div 32 = 11" and "n \<le> 364 \<or> (l \<and> n \<le> 365)"
  shows "md_ok n l (month_day n l)"
proof -
  have b: "302 \<le> n" "n \<le> 333" using assms(1) by arith+
  show ?thesis
  proof (cases l)
    case True
    then show ?thesis using b assms by (simp add: md_defs) arith?
  next
    case False
    then show ?thesis using b assms by (simp add: md_defs) arith?
  qed
qed

lemma month_day_case_12:
  assumes "(n + 50) div 32 = 12" and "n \<le> 364 \<or> (l \<and> n \<le> 365)"
  shows "md_ok n l (month_day n l)"
proof -
  have b: "334 \<le> n" "n \<le> 365" using assms(1) by arith+
  show ?thesis
  proof (cases l)
    case True
    then show ?thesis using b assms by (simp add: md_defs) arith?
  next
    case False
    then show ?thesis using b assms by (simp add: md_defs) arith?
  qed
qed

lemma month_day_ok:
  assumes "n \<le> 364 \<or> (l \<and> n \<le> 365)"
  shows "md_ok n l (month_day n l)"
proof -
  define k where "k = (n + 50) div 32"
  have "1 \<le> k" "k \<le> 12" unfolding k_def using assms by arith+
  then have "k = 1 \<or> k = 2 \<or> k = 3 \<or> k = 4 \<or> k = 5 \<or> k = 6 \<or> k = 7 \<or> k = 8 \<or> k = 9
      \<or> k = 10 \<or> k = 11 \<or> k = 12" by arith
  then consider "(n + 50) div 32 = 1" | "(n + 50) div 32 = 2" | "(n + 50) div 32 = 3"
    | "(n + 50) div 32 = 4" | "(n + 50) div 32 = 5" | "(n + 50) div 32 = 6"
    | "(n + 50) div 32 = 7" | "(n + 50) div 32 = 8" | "(n + 50) div 32 = 9"
    | "(n + 50) div 32 = 10" | "(n + 50) div 32 = 11" | "(n + 50) div 32 = 12"
    unfolding k_def by blast
  then show ?thesis
    using assms
    by cases (simp_all only: month_day_case_1 month_day_case_2 month_day_case_3 month_day_case_4
        month_day_case_5 month_day_case_6 month_day_case_7 month_day_case_8 month_day_case_9
        month_day_case_10 month_day_case_11 month_day_case_12)
qed

lemma dby_decomp:
  assumes "b \<le> 3" "c \<le> 24" "e \<le> 3"
  shows "days_before_year (400 * a + 100 * b + 4 * c + e + 1)
           = 146097 * a + 36524 * b + 1461 * c + 365 * e"
proof -
  have d4: "(400 * a + 100 * b + 4 * c + e) div 4 = 100 * a + 25 * b + c" using assms by arith
  have d100: "(400 * a + 100 * b + 4 * c + e) div 100 = 4 * a + b" using assms by arith
  have d400: "(400 * a + 100 * b + 4 * c + e) div 400 = a" using assms by arith
  show ?thesis by (simp add: days_before_year_def d4 d100 d400)
qed

lemma mod_zero_upto: "1 \<le> x \<Longrightarrow> x \<le> k \<Longrightarrow> (x mod k = 0) = (x = (k::nat))"
  by (cases "x = k") auto

lemma leap_decomp:
  assumes "b \<le> 3" "c \<le> 24" "e \<le> 3"
  shows "is_leap (400 * a + 100 * b + 4 * c + e + 1) = (e = 3 \<and> (c \<noteq> 24 \<or> b = 3))"
proof -
  have e4: "400 * a + 100 * b + 4 * c + e + 1 = (e + 1) + 4 * (100 * a + 25 * b + c)" by simp
  have e100: "400 * a + 100 * b + 4 * c + e + 1 = (4 * c + e + 1) + 100 * (4 * a + b)" by simp
  have e400: "400 * a + 100 * b + 4 * c + e + 1 = (100 * b + 4 * c + e + 1) + 400 * a" by simp
  have m4: "(400 * a + 100 * b + 4 * c + e + 1) mod 4 = (e + 1) mod 4"
    by (subst e4) (rule mod_mult_self2)
  have m100: "(400 * a + 100 * b + 4 * c + e + 1) mod 100 = (4 * c + e + 1) mod 100"
    by (subst e100) (rule mod_mult_self2)
  have m400: "(400 * a + 100 * b + 4 * c + e + 1) mod 400 = (100 * b + 4 * c + e + 1) mod 400"
    by (subst e400) (rule mod_mult_self2)
  have l4: "((e + 1) mod 4 = 0) = (e = 3)"
    using assms mod_zero_upto [of "e + 1" 4] by simp
  have l100: "((4 * c + e + 1) mod 100 = 0) = (c = 24 \<and> e = 3)"
    using assms mod_zero_upto [of "4 * c + e + 1" 100] by simp arith
  have l400: "((100 * b + 4 * c + e + 1) mod 400 = 0) = (b = 3 \<and> c = 24 \<and> e = 3)"
    using assms mod_zero_upto [of "100 * b + 4 * c + e + 1" 400] by simp arith
  show ?thesis unfolding is_leap_def m4 m100 m400 l4 l100 l400 by blast
qed

lemma ord_decomp:
  fixes n0 :: nat
  defines "a \<equiv> n0 div 146097"
    and "b \<equiv> n0 mod 146097 div 36524"
    and "c \<equiv> n0 mod 146097 mod 36524 div 1461"
    and "e \<equiv> n0 mod 146097 mod 36524 mod 1461 div 365"
    and "r \<equiv> n0 mod 146097 mod 36524 mod 1461 mod 365"
  shows "n0 = 146097 * a + 36524 * b + 1461 * c + 365 * e + r"
    and "b \<le> 4" and "c \<le> 24" and "e \<le> 4" and "r \<le> 364"
    and "b = 4 \<Longrightarrow> c = 0 \<and> e = 0 \<and> r = 0"
    and "e = 4 \<Longrightarrow> r = 0 \<and> c \<le> 23"
    and "36524 * b + 1461 * c + 365 * e + r < 146097"
    and "1461 * c + 365 * e + r < 36524"
    and "365 * e + r < 1461"
proof -
  define r400 where "r400 = n0 mod 146097"
  define r100 where "r100 = r400 mod 36524"
  define r4 where "r4 = r100 mod 1461"
  have 1: "n0 = 146097 * a + r400" "r400 < 146097"
    by (simp_all add: a_def r400_def)
  have 2: "r400 = 36524 * b + r100" "r100 < 36524"
    by (simp_all add: b_def r400_def r100_def)
  have 3: "r100 = 1461 * c + r4" "r4 < 1461"
    by (simp_all add: c_def r400_def r100_def r4_def)
  have 4: "r4 = 365 * e + r" "r < 365"
    by (simp_all add: e_def r_def r400_def r100_def r4_def)
  show "n0 = 146097 * a + 36524 * b + 1461 * c + 365 * e + r" using 1 2 3 4 by simp
  show "b \<le> 4" using 1 2 by arith
  show "c \<le> 24" using 2 3 by arith
  show "e \<le> 4" using 3 4 by arith
  show "r \<le> 364" using 4 by arith
  show "c = 0 \<and> e = 0 \<and> r = 0" if "b = 4" using that 1 2 3 4 by arith
  show "r = 0 \<and> c \<le> 23" if "e = 4" using that 2 3 4 by arith
  show "36524 * b + 1461 * c + 365 * e + r < 146097" using 1 2 3 4 by simp
  show "1461 * c + 365 * e + r < 36524" using 2 3 4 by simp
  show "365 * e + r < 1461" using 3 4 by simp
qed

lemma ord2ymd_abs:
  assumes "(n - 1) div 146097 = a"
    and "(n - 1) mod 146097 div 36524 = b"
    and "(n - 1) mod 146097 mod 36524 div 1461 = c"
    and "(n - 1) mod 146097 mod 36524 mod 1461 div 365 = e"
    and "(n - 1) mod 146097 mod 36524 mod 1461 mod 365 = r"
  shows "ord2ymd n =
     (if e = 4 \<or> b = 4 then (400 * a + 100 * b + 4 * c + e, 12, 31)
      else (400 * a + 100 * b + 4 * c + e + 1, month_day r (e = 3 \<and> (c \<noteq> 24 \<or> b = 3))))"
  unfolding ord2ymd_def Let_def month_day_def assms
  by (simp add: mult.commute)

lemma ord2ymd_valid:
  assumes "1 \<le> n"
  shows "case ord2ymd n of (y, m, d) \<Rightarrow> valid_date y m d \<and> ymd2ord y m d = n"
proof -
  define a where "a = (n - 1) div 146097"
  define b where "b = (n - 1) mod 146097 div 36524"
  define c where "c = (n - 1) mod 146097 mod 36524 div 1461"
  define e where "e = (n - 1) mod 146097 mod 36524 mod 1461 div 365"
  define r where "r = (n - 1) mod 146097 mod 36524 mod 1461 mod 365"
  note d = ord_decomp [of "n - 1", folded a_def b_def c_def e_def r_def]
  have n: "n = 146097 * a + 36524 * b + 1461 * c + 365 * e + r + 1"
    using d(1) assms by simp
  have o: "ord2ymd n =
     (if e = 4 \<or> b = 4 then (400 * a + 100 * b + 4 * c + e, 12, 31)
      else (400 * a + 100 * b + 4 * c + e + 1, month_day r (e = 3 \<and> (c \<noteq> 24 \<or> b = 3))))"
    by (rule ord2ymd_abs) (simp_all add: a_def b_def c_def e_def r_def)
  show ?thesis
  proof (cases "b = 4")
    case True
    then have z: "c = 0" "e = 0" "r = 0" using d(6) by simp_all
    have y: "400 * a + 100 * b + 4 * c + e = 400 * a + 100 * 3 + 4 * 24 + 3 + 1"
      using True z by simp
    have "days_before_year (400 * a + 100 * 3 + 4 * 24 + 3 + 1)
            = 146097 * a + 36524 * 3 + 1461 * 24 + 365 * 3"
      by (rule dby_decomp) simp_all
    moreover have "is_leap (400 * a + 100 * 3 + 4 * 24 + 3 + 1)"
      using leap_decomp [of 3 24 3 a] by simp
    ultimately show ?thesis
      unfolding o y using True z n
      by (simp add: valid_date_def ymd2ord_def days_in_month_def days_before_month_def
            DAYS_IN_MONTH_def DAYS_BEFORE_MONTH_def)
  next
    case False
    then have b3: "b \<le> 3" using d(2) by simp
    show ?thesis
    proof (cases "e = 4")
      case True
      then have z: "r = 0" "c \<le> 23" using d(7) by simp_all
      have y: "400 * a + 100 * b + 4 * c + e = 400 * a + 100 * b + 4 * c + 3 + 1"
        using True by simp
      have "days_before_year (400 * a + 100 * b + 4 * c + 3 + 1)
              = 146097 * a + 36524 * b + 1461 * c + 365 * 3"
        using b3 z by (intro dby_decomp) simp_all
      moreover have "is_leap (400 * a + 100 * b + 4 * c + 3 + 1)"
        using leap_decomp [of b c 3 a] b3 z by simp
      ultimately show ?thesis
        unfolding o y using True z n
        by (simp add: valid_date_def ymd2ord_def days_in_month_def days_before_month_def
              DAYS_IN_MONTH_def DAYS_BEFORE_MONTH_def)
    next
      case e4: False
      then have e3: "e \<le> 3" using d(4) by simp
      define l where "l = (e = 3 \<and> (c \<noteq> 24 \<or> b = 3))"
      define y where "y = 400 * a + 100 * b + 4 * c + e + 1"
      have dby: "days_before_year y = 146097 * a + 36524 * b + 1461 * c + 365 * e"
        unfolding y_def using b3 d(3) e3 by (rule dby_decomp)
      have leap: "is_leap y = l"
        unfolding y_def l_def using b3 d(3) e3 by (rule leap_decomp)
      have md: "md_ok r l (month_day r l)"
        using d(5) by (intro month_day_ok) simp
      obtain m dd where mdd: "month_day r l = (m, dd)" by (cases "month_day r l")
      have o': "ord2ymd n = (y, m, dd)"
        unfolding o using False e4 mdd by (simp add: l_def y_def)
      have "1 \<le> m" "m \<le> 12" "1 \<le> dd" "dd \<le> dim_leap l m" "dbm_leap l m + dd = r + 1"
        using md mdd by (simp_all add: md_ok_def)
      moreover have "days_in_month y m = dim_leap l m"
        by (simp add: days_in_month_def dim_leap_def leap)
      moreover have "days_before_month y m = dbm_leap l m"
        by (simp add: days_before_month_def dbm_leap_def leap)
      moreover have "1 \<le> y" by (simp add: y_def)
      ultimately show ?thesis
        unfolding o' using n dby by (simp add: valid_date_def ymd2ord_def)
    qed
  qed
qed

lemma below_10: "k < 10 \<Longrightarrow> k = 0 \<or> k = 1 \<or> k = 2 \<or> k = 3 \<or> k = 4 \<or> k = 5 \<or> k = 6 \<or> k = 7 \<or> k = 8 \<or> k = (9::nat)"
  by arith

lemma digit_chr_facts:
  assumes "k < 10"
  shows "digit_val (digit_chr k) = k" and "isdigit (digit_chr k)"
    and "(digit_chr k = CHR ''0'') = (k = 0)" and "(digit_chr k = CHR ''1'') = (k = 1)"
    and "(digit_chr k = CHR ''2'') = (k = 2)" and "(digit_chr k = CHR ''3'') = (k = 3)"
    and "digit_chr k \<noteq> CHR '' ''" and "digit_chr k \<noteq> CHR ''.''" and "digit_chr k \<noteq> CHR '':''"
  using below_10 [OF assms]
  by (elim disjE; simp add: digit_chr_def digit_val_def isdigit_def)+

lemma div_mod_10:
  fixes d :: nat
  shows "d mod 10 < 10" and "d \<le> 31 \<Longrightarrow> d div 10 < 10" and "d \<le> 31 \<Longrightarrow> d div 10 \<le> 3"
    and "d = 10 * (d div 10) + d mod 10"
  by simp_all

lemma parse_day_pad2: "1 \<le> d \<Longrightarrow> d \<le> 31 \<Longrightarrow> parse_day (pad2 d) = Some d"
proof -
  assume a: "1 \<le> d" "d \<le> 31"
  define q where "q = d div 10"
  define s where "s = d mod 10"
  have qs: "q < 10" "s < 10" "q \<le> 3" "d = 10 * q + s" using a by (simp_all add: q_def s_def)
  show ?thesis
    unfolding pad2_def q_def [symmetric] s_def [symmetric]
    using qs a
    by (simp add: parse_day_def digit_chr_facts) arith?
qed

lemma parse_month_pad2: "1 \<le> m \<Longrightarrow> m \<le> 12 \<Longrightarrow> parse_month (pad2 m) = Some m"
proof -
  assume a: "1 \<le> m" "m \<le> 12"
  define q where "q = m div 10"
  define s where "s = m mod 10"
  have qs: "q < 10" "s < 10" "q \<le> 1" "m = 10 * q + s" using a by (simp_all add: q_def s_def)
  show ?thesis
    unfolding pad2_def q_def [symmetric] s_def [symmetric]
    using qs a
    by (simp add: parse_month_def digit_chr_facts) arith?
qed

lemma pad2_no_dot: "n \<le> 31 \<Longrightarrow> takeWhile (\<lambda>c. c \<noteq> CHR ''.'') (pad2 n @ CHR ''.'' # rest) = pad2 n
    \<and> dropWhile (\<lambda>c. c \<noteq> CHR ''.'') (pad2 n @ CHR ''.'' # rest) = CHR ''.'' # rest"
  by (simp add: pad2_def digit_chr_facts)

lemma str_nat_digits: "\<forall>c\<in>set (str_nat n). isdigit c"
proof (induction n rule: str_nat.induct)
  case (1 n)
  show ?case
  proof (cases "n < 10")
    case True
    then show ?thesis by (subst str_nat.simps) (simp add: digit_chr_facts)
  next
    case False
    then show ?thesis using 1 by (subst str_nat.simps) (simp add: digit_chr_facts)
  qed
qed

lemma str_nat_nonempty: "str_nat n \<noteq> []"
  by (subst str_nat.simps) simp

lemma str_nat_4:
  assumes "1000 \<le> y" "y \<le> 9999"
  shows "str_nat y = [digit_chr (y div 1000), digit_chr (y div 100 mod 10),
                      digit_chr (y div 10 mod 10), digit_chr (y mod 10)]"
proof -
  have 1: "str_nat y = str_nat (y div 10) @ [digit_chr (y mod 10)]"
    using assms by (subst str_nat.simps) simp
  have 2: "str_nat (y div 10) = str_nat (y div 100) @ [digit_chr (y div 10 mod 10)]"
    using assms by (subst str_nat.simps) (simp add: div_mult2_eq [symmetric])
  have 3: "str_nat (y div 100) = str_nat (y div 1000) @ [digit_chr (y div 100 mod 10)]"
    using assms by (subst str_nat.simps) (simp add: div_mult2_eq [symmetric])
  have 4: "str_nat (y div 1000) = [digit_chr (y div 1000)]"
    using assms by (subst str_nat.simps) simp
  show ?thesis by (simp add: 1 2 3 4)
qed

lemma digits_val_4:
  assumes "y \<le> 9999"
  shows "digits_val [digit_chr (y div 1000), digit_chr (y div 100 mod 10),
                      digit_chr (y div 10 mod 10), digit_chr (y mod 10)] = y"
proof -
  have a: "y div 1000 = y div 100 div 10" and b: "y div 100 = y div 10 div 10"
    by (simp_all add: div_mult2_eq [symmetric])
  have "y div 1000 < 10" using assms by simp
  then have "digits_val [digit_chr (y div 1000), digit_chr (y div 100 mod 10),
                      digit_chr (y div 10 mod 10), digit_chr (y mod 10)]
        = ((y div 1000 * 10 + y div 100 mod 10) * 10 + y div 10 mod 10) * 10 + y mod 10"
    by (simp add: digits_val_def digit_chr_facts)
  also have "y div 1000 * 10 + y div 100 mod 10 = y div 100"
    unfolding a by (rule div_mult_mod_eq)
  also have "y div 100 * 10 + y div 10 mod 10 = y div 10"
    unfolding b by (rule div_mult_mod_eq)
  also have "y div 10 * 10 + y mod 10 = y"
    by (rule div_mult_mod_eq)
  finally show ?thesis .
qed

lemma ord2ymd_year_range:
  assumes "364878 \<le> n" "n \<le> MAXORDINAL"
  shows "1000 \<le> fst (ord2ymd n) \<and> fst (ord2ymd n) \<le> 9999"
proof -
  define a where "a = (n - 1) div 146097"
  define b where "b = (n - 1) mod 146097 div 36524"
  define c where "c = (n - 1) mod 146097 mod 36524 div 1461"
  define e where "e = (n - 1) mod 146097 mod 36524 mod 1461 div 365"
  define r where "r = (n - 1) mod 146097 mod 36524 mod 1461 mod 365"
  note d = ord_decomp [of "n - 1", folded a_def b_def c_def e_def r_def]
  have n: "n = 146097 * a + 36524 * b + 1461 * c + 365 * e + r + 1"
    using d(1) assms by simp
  have o: "fst (ord2ymd n) =
     (if e = 4 \<or> b = 4 then 400 * a + 100 * b + 4 * c + e else 400 * a + 100 * b + 4 * c + e + 1)"
    by (subst ord2ymd_abs [of n a b c e r]) (simp_all add: a_def b_def c_def e_def r_def)
  have lo: "364877 \<le> 146097 * a + 36524 * b + 1461 * c + 365 * e + r" using n assms(1) by simp
  have hi: "146097 * a + 36524 * b + 1461 * c + 365 * e + r \<le> 3652058"
    using n assms(2) by (simp add: MAXORDINAL_def)
  have lower: "1000 \<le> 400 * a + 100 * b + 4 * c + e + (if e = 4 \<or> b = 4 then 0 else 1)"
  proof -
    have a2: "2 \<le> a" using lo d(8) by arith
    show ?thesis
    proof (cases "a = 2")
      case False
      then show ?thesis using a2 by simp
    next
      case True
      then have r400: "72683 \<le> 36524 * b + 1461 * c + 365 * e + r" using lo by simp
      then have b1: "1 \<le> b" using d(9) by arith
      show ?thesis
      proof (cases "b = 1")
        case False
        then show ?thesis using b1 True by simp
      next
        case b: True
        then have r100: "36159 \<le> 1461 * c + 365 * e + r" using r400 by simp
        then have c24: "c = 24" using d(10) d(3) by arith
        then have "1095 \<le> 365 * e + r" using r100 by simp
        then have "3 \<le> e" using d(5) by arith
        moreover have "e \<noteq> 4" using d(7) c24 by auto
        ultimately show ?thesis using True b c24 by simp
      qed
    qed
  qed
  have upper: "400 * a + 100 * b + 4 * c + e + (if e = 4 \<or> b = 4 then 0 else 1) \<le> 9999"
  proof -
    have a24: "a \<le> 24" using hi by arith
    show ?thesis
    proof (cases "a = 24")
      case False
      then have "a \<le> 23" using a24 by simp
      then show ?thesis using d(2) d(3) d(4) by simp
    next
      case True
      then have r400: "36524 * b + 1461 * c + 365 * e + r \<le> 145730" using hi by simp
      then have b3: "b \<le> 3" by arith
      show ?thesis
      proof (cases "b = 3")
        case False
        then have "b \<le> 2" using b3 by simp
        then show ?thesis using True d(3) d(4) by simp
      next
        case b: True
        then have r100: "1461 * c + 365 * e + r \<le> 36158" using r400 by simp
        show ?thesis
        proof (cases "c = 24")
          case False
          then have "c \<le> 23" using d(3) by simp
          then show ?thesis using True b d(4) by simp
        next
          case c: True
          then have "365 * e + r \<le> 1094" using r100 by simp
          then have "e \<le> 2" by arith
          then show ?thesis using True b c by simp
        qed
      qed
    qed
  qed
  show ?thesis unfolding o using lower upper by (cases "e = 4 \<or> b = 4") simp_all
qed

lemma ord2ymd_0: "ord2ymd 0 = ord2ymd 1"
  by (simp add: ord2ymd_def)

lemma ord2ymd_fields:
  "case ord2ymd n of (y, m, d) \<Rightarrow> valid_date y m d"
proof (cases "n = 0")
  case True
  then show ?thesis using ord2ymd_valid [of 1] by (simp add: ord2ymd_0 split: prod.splits)
next
  case False
  then show ?thesis using ord2ymd_valid [of n] by (simp split: prod.splits)
qed

lemma days_in_month_le: "days_in_month y m \<le> 31" if "m \<le> 12"
proof -
  have "m = 0 \<or> m = 1 \<or> m = 2 \<or> m = 3 \<or> m = 4 \<or> m = 5 \<or> m = 6 \<or> m = 7 \<or> m = 8 \<or> m = 9
      \<or> m = 10 \<or> m = 11 \<or> m = 12" using that by arith
  then show ?thesis by (elim disjE) (simp_all add: days_in_month_def DAYS_IN_MONTH_def)
qed

lemma parse_dmy_prefix_format:
  assumes "1 \<le> d" "d \<le> 31" "1 \<le> m" "m \<le> 12"
  shows "parse_dmy_prefix (pad2 d @ ''.'' @ pad2 m @ ''.'' @ r3) =
           (if length (take 4 r3) = 4 \<and> (\<forall>c\<in>set (take 4 r3). isdigit c)
            then Some ((d, m, digits_val (take 4 r3)), drop 4 r3) else None)"
proof -
  have m31: "m \<le> 31" using assms by simp
  show ?thesis
    using pad2_no_dot [OF assms(2), of "pad2 m @ ''.'' @ r3"] pad2_no_dot [OF m31, of r3]
      parse_day_pad2 [OF assms(1,2)] parse_month_pad2 [OF assms(3,4)]
    by (simp add: parse_dmy_prefix_def)
qed

lemma strptime_strftime:
  assumes "364878 \<le> n" "n \<le> MAXORDINAL"
  shows "strptime_datetime (strftime_date n @ '' '' @ t) =
           (case parse_hm_tail (CHR '' '' # t) of
              None \<Rightarrow> None
            | Some (h, mi) \<Rightarrow> Some \<lparr>dt_date = n, dt_hour = h, dt_minute = mi\<rparr>)"
proof -
  obtain y m d where o: "ord2ymd n = (y, m, d)" by (cases "ord2ymd n") auto
  have v: "valid_date y m d" "ymd2ord y m d = n"
    using ord2ymd_valid [of n] assms(1) o by simp_all
  have yr: "1000 \<le> y" "y \<le> 9999" using ord2ymd_year_range [OF assms] o by simp_all
  have d31: "1 \<le> d" "d \<le> 31" "1 \<le> m" "m \<le> 12"
    using v(1) days_in_month_le [of m y] by (simp_all add: valid_date_def)
  have s: "strftime_date n @ '' '' @ t = pad2 d @ ''.'' @ pad2 m @ ''.'' @ (str_nat y @ CHR '' '' # t)"
    by (simp add: strftime_date_def o)
  have y4: "str_nat y = [digit_chr (y div 1000), digit_chr (y div 100 mod 10),
                      digit_chr (y div 10 mod 10), digit_chr (y mod 10)]"
    using yr by (rule str_nat_4)
  have dg: "\<forall>c\<in>set (str_nat y). isdigit c" by (rule str_nat_digits)
  have "parse_dmy_prefix (strftime_date n @ '' '' @ t) = Some ((d, m, y), CHR '' '' # t)"
    unfolding s parse_dmy_prefix_format [OF d31]
    using dg digits_val_4 [OF yr(2)] by (simp add: y4)
  moreover have "valid_ymd y m d" using v(1) by (simp add: valid_ymd_def valid_date_def)
  ultimately show ?thesis using v(2) by (simp add: strptime_datetime_def split: option.splits)
qed

lemma strptime_strftime_tail:
  assumes "strptime_datetime (strftime_date n @ '' '' @ t) \<noteq> None"
  shows "parse_hm_tail (CHR '' '' # t) \<noteq> None"
proof -
  obtain y m d where o: "ord2ymd n = (y, m, d)" by (cases "ord2ymd n") auto
  have v: "valid_date y m d" using ord2ymd_fields [of n] o by simp
  have d31: "1 \<le> d" "d \<le> 31" "1 \<le> m" "m \<le> 12"
    using v days_in_month_le [of m y] by (simp_all add: valid_date_def)
  define Y where "Y = str_nat y"
  have s: "strftime_date n @ '' '' @ t = pad2 d @ ''.'' @ pad2 m @ ''.'' @ (Y @ CHR '' '' # t)"
    by (simp add: strftime_date_def o Y_def)
  have dg: "\<forall>c\<in>set Y. isdigit c" unfolding Y_def by (rule str_nat_digits)
  have sp: "\<not> isdigit (CHR '' '')" by (simp add: isdigit_def)
  from assms obtain x rest where p: "parse_dmy_prefix (strftime_date n @ '' '' @ t) = Some (x, rest)"
    and tl: "parse_hm_tail rest \<noteq> None"
    by (auto simp: strptime_datetime_def split: option.splits prod.splits)
  have cond: "length (take 4 (Y @ CHR '' '' # t)) = 4"
      "\<forall>c\<in>set (take 4 (Y @ CHR '' '' # t)). isdigit c"
    and rest: "rest = drop 4 (Y @ CHR '' '' # t)"
    using p unfolding s parse_dmy_prefix_format [OF d31] by (auto split: if_splits)
  have len: "4 \<le> length Y"
  proof (rule ccontr)
    assume "\<not> 4 \<le> length Y"
    then have "CHR '' '' \<in> set (take 4 (Y @ CHR '' '' # t))" by (auto simp: take_Cons')
    then show False using cond(2) sp by blast
  qed
  have "drop 4 Y = []"
  proof (rule ccontr)
    assume ne: "drop 4 Y \<noteq> []"
    then obtain c cs where cc: "drop 4 Y = c # cs" by (cases "drop 4 Y") auto
    then have "c \<in> set Y" by (metis in_set_dropD list.set_intros(1))
    then have "\<not> isspace c" using dg isdigit_not_space by blast
    then have "parse_hm_tail rest = None"
      using rest len cc by (simp add: parse_hm_tail_def)
    then show False using tl by simp
  qed
  then show ?thesis using tl rest len by simp
qed

section \<open>Properties of the holiday loops\<close>

lemma collect_weeks_eq:
  "collect_weeks es aw f =
     (aw \<union> active_weeks_of es,
      f \<or> (\<exists>e\<in>set es. ev_type e = ''single'' \<and> truthy (date e)))"
proof (induction es arbitrary: aw f)
  case Nil
  show ?case by (simp add: active_weeks_of_def)
next
  case (Cons e es)
  have split: "active_weeks_of (e # es) =
      (if ev_type e = ''single'' \<and> truthy (date e)
       then (case strptime_date (fmt_opt (date e)) of Some dt \<Rightarrow> {iso_week dt} | None \<Rightarrow> {})
       else {}) \<union> active_weeks_of es"
    by (auto simp: active_weeks_of_def split: option.splits)
  show ?case
    by (simp add: Cons.IH split split: option.splits) auto
qed

lemma stride_dates_empty: "end_date < start \<Longrightarrow> stride_dates start end_date = []"
  by (simp add: stride_dates_def)

lemma stride_dates_step:
  assumes "start \<le> end_date"
  shows "stride_dates start end_date = start # stride_dates (start + 7) end_date"
proof -
  have n: "(end_date + 7 - start) div 7 = Suc ((end_date + 7 - (start + 7)) div 7)"
    using assms by (simp add: Suc_diff_le flip: div_add_self2)
  show ?thesis
    unfolding stride_dates_def n
    by (simp add: upt_conv_Cons map_Suc_upt [symmetric] del: upt_Suc)
qed

lemma holiday_loop_eq:
  "end_date + 7 \<le> MAXORDINAL \<Longrightarrow>
   holiday_loop active current end_date hw =
     Inr (hw @ filter (\<lambda>w. w \<notin> active) (map iso_week (stride_dates current end_date)))"
proof (induction active current end_date hw rule: holiday_loop.induct)
  case (1 active current end_date hw)
  show ?case
  proof (cases "current \<le> end_date")
    case False
    then show ?thesis by (simp add: holiday_loop.simps stride_dates_empty)
  next
    case True
    have add: "date_add current 7 = Inr (current + 7)"
      using True "1.prems" by (simp add: date_add_def)
    show ?thesis
      using "1.IH" [OF True refl refl add "1.prems"] True
      by (subst holiday_loop.simps) (simp add: add stride_dates_step Let_def)
  qed
qed


lemma strptime_date_examples:
  "strptime_date ''31.02.2024'' = None"
  "strptime_date ''09.01.2024'' = Some 738894"
  "strptime_date ''23.01.2024'' = Some 738908"
  "strptime_date ''06.02.2024'' = Some 738922"
  by (simp_all add: strptime_date_def parse_defs cal_defs)

lemma one_off_fields:
  "ev_type (one_off d) = ''single''" "date (one_off d) = Some d"
  by (simp_all add: one_off_def)

lemma detect_eq:
  assumes "\<exists>e\<in>set events. ev_type e = ''single'' \<and> truthy (date e)"
    and "semester_end + 7 \<le> MAXORDINAL"
  shows "detect_holiday_weeks events semester_start semester_end =
           Inr (sorted_list_of_set
                  (iso_week ` set (stride_dates semester_start semester_end) - active_weeks_of events))"
proof -
  have "set (filter (\<lambda>w. w \<notin> active_weeks_of events)
               (map iso_week (stride_dates semester_start semester_end)))
        = iso_week ` set (stride_dates semester_start semester_end) - active_weeks_of events"
    by auto
  then show ?thesis
    using assms
    by (simp add: detect_holiday_weeks_def collect_weeks_eq holiday_loop_eq
          sorted_list_of_set_sort_remdups [symmetric] del: set_filter)
qed

lemma active_weeks_of_Nil: "active_weeks_of [] = {}"
  by (simp add: active_weeks_of_def)

lemma active_weeks_of_Cons:
  "active_weeks_of (e # es) =
      (if ev_type e = ''single'' \<and> truthy (date e)
       then (case strptime_date (fmt_opt (date e)) of Some dt \<Rightarrow> {iso_week dt} | None \<Rightarrow> {})
       else {}) \<union> active_weeks_of es"
  by (auto simp: active_weeks_of_def split: option.splits)

lemma stride_2024: "stride_dates 738886 738927 = [738886, 738893, 738900, 738907, 738914, 738921]"
  by (simp add: stride_dates_def upt_conv_Cons)

lemma active_2_4_6: "active_weeks_of weeks_2_4_6 = {2, 4, 6}"
  by (auto simp: active_weeks_of_Cons active_weeks_of_Nil weeks_2_4_6_def one_off_fields fmt_opt_def
        truthy_def strptime_date_examples iso_week_2024)

lemma last_stride_step:
  "start + 7 \<le> end_date \<Longrightarrow> last_stride (start + 7) end_date = last_stride start end_date"
proof -
  assume a: "start + 7 \<le> end_date"
  define x where "x = end_date - (start + 7)"
  have e: "end_date - start = x + 7" using a by (simp add: x_def)
  have "(x + 7) div 7 = x div 7 + 1" by (rule div_add_self2) simp
  then show ?thesis unfolding last_stride_def e x_def [symmetric] by simp
qed

lemma last_stride_near: "start \<le> end_date \<Longrightarrow> end_date < start + 7 \<Longrightarrow> last_stride start end_date = start"
  by (simp add: last_stride_def)

lemma last_stride_ge: "start \<le> last_stride start end_date"
  by (simp add: last_stride_def)

lemma holiday_loop_exact:
  "holiday_loop active current end_date hw =
     (if current \<le> end_date \<and> MAXORDINAL < last_stride current end_date + 7
      then Inl OverflowError
      else Inr (hw @ filter (\<lambda>w. w \<notin> active) (map iso_week (stride_dates current end_date))))"
proof (induction active current end_date hw rule: holiday_loop.induct)
  case (1 active current end_date hw)
  show ?case
  proof (cases "current \<le> end_date")
    case False
    then show ?thesis by (subst holiday_loop.simps) (simp add: stride_dates_empty)
  next
    case True
    show ?thesis
    proof (cases "current + 7 \<le> MAXORDINAL")
      case ov: False
      then have add: "date_add current 7 = Inl OverflowError" by (simp add: date_add_def)
      have "MAXORDINAL < last_stride current end_date + 7"
        using ov last_stride_ge [of current end_date] by simp
      then show ?thesis using True
        by (subst holiday_loop.simps) (simp add: add Let_def)
    next
      case ok: True
      then have add: "date_add current 7 = Inr (current + 7)" by (simp add: date_add_def)
      note ih = "1.IH" [OF True refl refl add]
      show ?thesis
      proof (cases "current + 7 \<le> end_date")
        case far: True
        show ?thesis
          using ih True far last_stride_step [OF far]
          by (subst holiday_loop.simps) (simp add: add Let_def stride_dates_step [OF True])
      next
        case near: False
        then have ls: "last_stride current end_date = current"
          using True by (intro last_stride_near) simp_all
        show ?thesis
          using ih True near ok
          by (subst holiday_loop.simps) (simp add: add Let_def stride_dates_step [OF True] ls)
      qed
    qed
  qed
qed

lemma detect_exact:
  assumes "\<exists>e\<in>set events. ev_type e = ''single'' \<and> truthy (date e)"
  shows "detect_holiday_weeks events semester_start semester_end =
           (if semester_start \<le> semester_end \<and> MAXORDINAL < last_stride semester_start semester_end + 7
            then Inl OverflowError
            else Inr (sorted_list_of_set
                  (iso_week ` set (stride_dates semester_start semester_end) - active_weeks_of events)))"
proof -
  have "set (filter (\<lambda>w. w \<notin> active_weeks_of events)
               (map iso_week (stride_dates semester_start semester_end)))
        = iso_week ` set (stride_dates semester_start semester_end) - active_weeks_of events"
    by auto
  then show ?thesis
    using assms
    by (simp add: detect_holiday_weeks_def collect_weeks_eq holiday_loop_exact
          sorted_list_of_set_sort_remdups [symmetric] del: set_filter)
qed

lemma ymd2ord_9999:
  "ymd2ord 9999 12 20 = 3652048" "ymd2ord 9999 12 25 = 3652053"
  by (simp_all add: cal_defs)

lemma ord2ymd_9999: "ord2ymd 3652048 = (9999, 12, 20)"
  by (simp add: cal_defs Let_def)

lemma isoweek1monday_9999: "isoweek1monday 9999 = 3651698"
  by (simp add: cal_defs isoweek1monday_def Let_def)

lemma iso_week_9999: "iso_week 3652048 = 51"
  by (simp add: iso_week_def ord2ymd_9999 isoweek1monday_9999 Let_def)

lemma detect_no_dated_one_off:
  "(\<forall>e\<in>set events. \<not> (ev_type e = ''single'' \<and> truthy (date e))) \<Longrightarrow>
     detect_holiday_weeks events semester_start semester_end = Inr []"
  by (simp add: detect_holiday_weeks_def collect_weeks_eq)

section \<open>Properties of the extraction\<close>

lemma split_chr_notin: "c \<notin> set s \<Longrightarrow> split_chr c s = [s]"
  by (induction s) (auto simp: Let_def)

lemma dropWhile_none: "\<forall>c\<in>set xs. \<not> P c \<Longrightarrow> dropWhile P xs = xs"
  by (cases xs) auto

lemma strip_no_space: "\<forall>c\<in>set s. \<not> isspace c \<Longrightarrow> strip s = s"
proof -
  assume a: "\<forall>c\<in>set s. \<not> isspace c"
  have "dropWhile isspace s = s" using a by (rule dropWhile_none)
  moreover have "dropWhile isspace (rev s) = rev s" using a by (intro dropWhile_none) simp
  ultimately show ?thesis by (simp add: strip_def lstrip_def rstrip_def)
qed

lemma id_chars_no_comma: "id_chars s \<Longrightarrow> CHR '','' \<notin> set s"
proof
  assume a: "id_chars s" and b: "CHR '','' \<in> set s"
  then have "isdigit (CHR '','') \<or> CHR '','' = CHR ''.''" unfolding id_chars_def by blast
  then show False by (simp add: isdigit_def)
qed

lemma id_chars_no_space: "id_chars s \<Longrightarrow> \<forall>c\<in>set s. \<not> isspace c"
proof
  fix c
  assume a: "id_chars s" and b: "c \<in> set s"
  then have "isdigit c \<or> c = CHR ''.''" unfolding id_chars_def by blast
  then show "\<not> isspace c" using isdigit_not_space dot_not_space by blast
qed

lemma search_ids_id: "id_chars s \<Longrightarrow> search_ids s = [s]"
proof -
  assume a: "id_chars s"
  have "s \<noteq> []" using a by (simp add: id_chars_def)
  then show ?thesis
    by (simp add: search_ids_def split_chr_notin [OF id_chars_no_comma [OF a]]
          strip_no_space [OF id_chars_no_space [OF a]])
qed

lemma dot_groups_chars: "dot_groups s = (g, r) \<Longrightarrow> \<forall>c\<in>set g. isdigit c \<or> c = CHR ''.''"
proof (induction s arbitrary: g r rule: dot_groups.induct)
  case 1
  then show ?case by simp
next
  case (2 c r')
  show ?case
  proof (cases "c = CHR ''.'' \<and> takeWhile isdigit r' \<noteq> []")
    case True
    obtain g' rest where gr: "dot_groups (dropWhile isdigit r') = (g', rest)" by (cases "dot_groups (dropWhile isdigit r')")
    have "\<forall>c\<in>set g'. isdigit c \<or> c = CHR ''.''" using "2.IH" [OF True gr] .
    moreover have "g = c # takeWhile isdigit r' @ g'" using "2.prems" True gr by simp
    moreover have "\<forall>x\<in>set (takeWhile isdigit r'). isdigit x" by (auto dest: set_takeWhileD)
    ultimately show ?thesis using True by auto
  next
    case False
    then show ?thesis using "2.prems" by auto
  qed
qed

lemma id_match_chars: "id_match line = Some (cid, t) \<Longrightarrow> id_chars cid"
proof -
  assume a: "id_match line = Some (cid, t)"
  obtain g r2 where gr: "dot_groups (dropWhile isdigit line) = (g, r2)" by (cases "dot_groups (dropWhile isdigit line)")
  have "cid = takeWhile isdigit line @ g" "takeWhile isdigit line \<noteq> []"
    using a gr by (auto simp: id_match_def Let_def split: if_splits)
  moreover have "\<forall>x\<in>set (takeWhile isdigit line). isdigit x" by (auto dest: set_takeWhileD)
  ultimately show ?thesis using dot_groups_chars [OF gr] by (auto simp: id_chars_def)
qed

lemma process_line_id:
  "process_line cid ft dl line = Inr (Some ev) \<Longrightarrow> ev_id ev = cid"
  by (auto simp: process_line_def Let_def split: option.splits sum.splits)

lemma process_lines_ids:
  "process_lines cid ft dl lines acc = Inr evs \<Longrightarrow> \<forall>e\<in>set acc. ev_id e = cid \<Longrightarrow> \<forall>e\<in>set evs. ev_id e = cid"
proof (induction lines arbitrary: acc)
  case Nil
  then show ?case by simp
next
  case (Cons line lines)
  show ?case
  proof (cases "process_line cid ft dl line")
    case (Inl err)
    then show ?thesis using Cons.prems by simp
  next
    case (Inr r)
    show ?thesis
    proof (cases r)
      case None
      then show ?thesis using Cons Inr by simp
    next
      case (Some ev)
      have "\<forall>e\<in>set (acc @ [ev]). ev_id e = cid"
        using Cons.prems(2) process_line_id Inr Some by auto
      moreover have "process_lines cid ft dl lines (acc @ [ev]) = Inr evs"
        using Cons.prems(1) Inr Some by simp
      ultimately show ?thesis using Cons.IH by blast
    qed
  qed
qed

lemma process_event_block_ids:
  "process_event_block b = Inr evs \<Longrightarrow> \<forall>e\<in>set evs. id_chars (ev_id e)"
proof -
  assume a: "process_event_block b = Inr evs"
  show ?thesis
  proof (cases b)
    case Nil
    then show ?thesis using a by (simp add: process_event_block_def)
  next
    case (Cons header rest)
    show ?thesis
    proof (cases "id_match header")
      case None
      then show ?thesis using a Cons by (simp add: process_event_block_def)
    next
      case (Some m)
      obtain cid t where m: "m = (cid, t)" by (cases m)
      have "\<forall>e\<in>set evs. ev_id e = cid"
        using a Cons Some m process_lines_ids [of cid _ _ b "[]" evs]
        by (simp add: process_event_block_def Let_def)
      then show ?thesis using id_match_chars Some m by auto
    qed
  qed
qed

lemma extract_loop_ids:
  "extract_loop lines events cur = Inr (evs, cur') \<Longrightarrow> \<forall>e\<in>set events. id_chars (ev_id e)
     \<Longrightarrow> \<forall>e\<in>set evs. id_chars (ev_id e)"
proof (induction lines arbitrary: events cur)
  case Nil
  then show ?case by simp
next
  case (Cons line lines)
  show ?case
  proof (cases "id_match line \<noteq> None \<and> cur \<noteq> []")
    case True
    then obtain b where b: "process_event_block cur = Inr b"
      using Cons.prems(1) by (cases "process_event_block cur") auto
    have "extract_loop lines (events @ b) [line] = Inr (evs, cur')"
      using Cons.prems(1) True b by simp
    moreover have "\<forall>e\<in>set (events @ b). id_chars (ev_id e)"
      using Cons.prems(2) process_event_block_ids [OF b] by auto
    ultimately show ?thesis using Cons.IH by blast
  next
    case False
    then obtain ev' cur'' where "extract_loop lines ev' cur'' = Inr (evs, cur')" "ev' = events"
      using Cons.prems(1) by (auto split: if_splits)
    then show ?thesis using Cons.prems(2) Cons.IH by blast
  qed
qed

lemma extract_events_ids:
  "extract_events text = Inr evs \<Longrightarrow> e \<in> set evs \<Longrightarrow> id_chars (ev_id e)"
proof -
  assume a: "extract_events text = Inr evs" and e: "e \<in> set evs"
  obtain evs0 cur where l: "extract_loop (split_chr (CHR 0x0A) text) [] [] = Inr (evs0, cur)"
    using a by (cases "extract_loop (split_chr (CHR 0x0A) text) [] []") (auto simp: extract_events_def)
  have 0: "\<forall>e\<in>set evs0. id_chars (ev_id e)" using extract_loop_ids [OF l] by simp
  show ?thesis
  proof (cases "cur = []")
    case True
    then show ?thesis using a l 0 e by (simp add: extract_events_def)
  next
    case False
    then obtain b where b: "process_event_block cur = Inr b" and "evs = evs0 @ b"
      using a l by (cases "process_event_block cur") (auto simp: extract_events_def)
    then show ?thesis using 0 process_event_block_ids [OF b] e by auto
  qed
qed

lemma extend_matches_set:
  "set (extend_matches all ids acc) =
     set acc \<union> {e \<in> set all. \<exists>s\<in>set ids. startswith (ev_id e) s}"
  by (induction ids arbitrary: acc) auto

lemma matched_events_own_id:
  "id_chars (ev_id e) \<Longrightarrow> e \<in> set all \<Longrightarrow> e \<in> set (matched_events all (ev_id e))"
  by (simp add: matched_events_def search_ids_id extend_matches_set startswith_refl)



lemma date_prefix_shape:
  assumes "date_prefix s = Some (tok, r')"
  shows "\<exists>a b c d y. tok = [a, b, CHR ''.'', c, d, CHR ''.''] @ y \<and> isdigit a \<and> isdigit b
           \<and> isdigit c \<and> isdigit d \<and> (\<forall>x\<in>set y. isdigit x) \<and> 2 \<le> length y \<and> length y \<le> 4"
  using assms
proof (cases s rule: date_prefix.cases)
  case (1 a b p c d q r)
  have "\<forall>x\<in>set (takeWhile isdigit r). isdigit x" by (auto dest: set_takeWhileD)
  then show ?thesis using assms 1 by (auto simp: Let_def split: if_splits)
qed simp_all

lemma normalize_year_token:
  assumes "isdigit a" "isdigit b" "isdigit c" "isdigit d" "\<forall>x\<in>set y. isdigit x"
  shows "normalize_year ([a, b, CHR ''.'', c, d, CHR ''.''] @ y) =
           Inr (if length y = 2 then [a, b] @ ''.'' @ [c, d] @ ''.20'' @ y
                else [a, b, CHR ''.'', c, d, CHR ''.''] @ y)"
proof -
  have y: "CHR ''.'' \<notin> set y" using assms(5) isdigit_not_dot by blast
  have "split_chr (CHR ''.'') ([a, b, CHR ''.'', c, d, CHR ''.''] @ y) = [[a, b], [c, d], y]"
    using assms(1-4) isdigit_not_dot [of a] isdigit_not_dot [of b] isdigit_not_dot [of c]
      isdigit_not_dot [of d] split_chr_notin [OF y]
    by (simp add: Let_def)
  then show ?thesis by (simp add: normalize_year_def)
qed

lemma time_match_at_date:
  "time_match_at s = Some (wd, Some tok, st, en) \<Longrightarrow> \<exists>r r'. date_prefix r = Some (tok, r')"
  by (auto simp: time_match_at_def Let_def split: option.splits if_splits list.splits prod.splits)

lemma time_search_date:
  "time_search s = Some (wd, Some tok, st, en) \<Longrightarrow> \<exists>r r'. date_prefix r = Some (tok, r')"
  by (induction s) (auto split: option.splits dest: time_match_at_date)

lemma process_line_total: "\<exists>r. process_line cid ft dl line = Inr r"
proof (cases "time_search line")
  case None
  then show ?thesis by (simp add: process_line_def)
next
  case (Some m)
  obtain wd ds st en where m: "m = (wd, ds, st, en)" by (cases m)
  show ?thesis
  proof (cases ds)
    case None
    then show ?thesis using Some m by (simp add: process_line_def)
  next
    case (Some tok)
    obtain r r' where "date_prefix r = Some (tok, r')"
      using time_search_date \<open>time_search line = Some m\<close> m Some by blast
    then obtain a b c d y where "tok = [a, b, CHR ''.'', c, d, CHR ''.''] @ y" "isdigit a" "isdigit b"
      "isdigit c" "isdigit d" "\<forall>x\<in>set y. isdigit x"
      using date_prefix_shape by blast
    then obtain d' where "normalize_year tok = Inr d'"
      using normalize_year_token by blast
    then show ?thesis using \<open>time_search line = Some m\<close> m Some by (simp add: process_line_def)
  qed
qed

lemma process_lines_total: "\<exists>evs. process_lines cid ft dl lines acc = Inr evs"
proof (induction lines arbitrary: acc)
  case Nil
  show ?case by simp
next
  case (Cons line lines)
  obtain r where r: "process_line cid ft dl line = Inr r" using process_line_total by blast
  show ?case using Cons.IH by (cases r) (simp_all add: r)
qed

lemma process_event_block_total: "b \<noteq> [] \<Longrightarrow> \<exists>evs. process_event_block b = Inr evs"
  using process_lines_total
  by (cases b) (auto simp: process_event_block_def Let_def simp del: process_lines.simps
        split: option.splits)

lemma extract_loop_total:
  "\<exists>evs cur'. extract_loop lines events cur = Inr (evs, cur')"
proof (induction lines arbitrary: events cur)
  case Nil
  show ?case by simp
next
  case (Cons line lines)
  show ?case
  proof (cases "id_match line \<noteq> None \<and> cur \<noteq> []")
    case True
    then obtain b where b: "process_event_block cur = Inr b"
      using process_event_block_total by blast
    show ?thesis using True b Cons.IH [of "events @ b" "[line]"] by simp
  next
    case False
    then show ?thesis
      using Cons.IH [of events "[line]"] Cons.IH [of events "cur @ [line]"] Cons.IH [of events cur]
      by auto
  qed
qed

lemma extract_events_total: "\<exists>evs. extract_events text = Inr evs"
proof -
  obtain evs cur where l: "extract_loop (split_chr (CHR 0x0A) text) [] [] = Inr (evs, cur)"
    using extract_loop_total by blast
  show ?thesis
  proof (cases "cur = []")
    case True
    then show ?thesis using l by (simp add: extract_events_def)
  next
    case False
    then obtain b where "process_event_block cur = Inr b" using process_event_block_total by blast
    then show ?thesis using l False by (simp add: extract_events_def)
  qed
qed

section \<open>Evaluating the extraction on the sample block\<close>

lemmas scan_defs = id_match_def time_match_at_def weekday_prefix_def loc_match_at_def
  keyword_prefix_def isdigit_def isspace_def isword_def

lemma sample_scans:
  "id_match sample_header = Some (''1.3.1'', ''Seminar A'')"
  "id_match sample_line = None"
  "time_search sample_header = None"
  "time_search sample_line = Some (''Di'', None, ''10:00'', ''12:00'')"
  "loc_search sample_header = None"
  "loc_search sample_line = Some ''Raum A1''"
  "loc_search (join_lines [sample_header, sample_line]) = Some ''Raum A1''"
  by (simp_all add: scan_defs sample_header_def sample_line_def)

lemma sample_title: "clean_title_logic ''1.3.1'' ''Seminar A'' = ''Seminar A''"
  by (simp add: clean_title_logic_def count_chr_def strip_def lstrip_def rstrip_def isspace_def)

lemma process_sample: "process_event_block [sample_header, sample_line] = Inr [slot_a]"
  by (simp add: process_event_block_def process_line_def sample_scans sample_title slot_a_def
        truthy_def replace_dot_def Let_def del: join_lines.simps)

lemma split_sample:
  "split_chr (CHR 0x0A) (sample_header @ CHR 0x0A # sample_line) = [sample_header, sample_line]"
  by (simp add: sample_header_def sample_line_def)

lemma extract_sample: "extract_events (sample_header @ CHR 0x0A # sample_line) = Inr [slot_a]"
  by (simp add: extract_events_def split_sample sample_scans process_sample)

section \<open>Claims\<close>

text \<open>
  C4. Depth-sensitive title cleaning: when the identifier has exactly one dot and the raw
  title contains a hyphen, the cleaned title is the stripped text before the first hyphen;
  when the identifier has two or more dots, the cleaned title is the stripped raw title,
  hyphens or not.
\<close>

theorem C4_clean_title_depth_sensitive:
  "(count_chr course_id (CHR ''.'') = 1 \<and> CHR ''-'' \<in> set raw_title \<longrightarrow>
      clean_title_logic course_id raw_title = strip (takeWhile (\<lambda>x. x \<noteq> CHR ''-'') raw_title))
   \<and> (2 \<le> count_chr course_id (CHR ''.'') \<longrightarrow>
      clean_title_logic course_id raw_title = strip raw_title)"
  by (simp add: clean_title_logic_def hd_split_chr)

theorem C4_clean_title_witness:
  "count_chr ''1.3'' (CHR ''.'') = 1 \<and> CHR ''-'' \<in> set ''Analysis - Modul''
   \<and> clean_title_logic ''1.3'' ''Analysis - Modul'' = ''Analysis''
   \<and> 2 \<le> count_chr ''1.3.1'' (CHR ''.'')
   \<and> clean_title_logic ''1.3.1'' ''Analysis - Modul'' = ''Analysis - Modul''"
  using C4_clean_title_depth_sensitive [of "''1.3''" "''Analysis - Modul''"]
        C4_clean_title_depth_sensitive [of "''1.3.1''" "''Analysis - Modul''"]
  by (simp add: count_chr_def strip_def lstrip_def rstrip_def isspace_def)





text \<open>
  C1. The claim: when the collected set of ISO week numbers of the one-off dates that parse
  is empty, \<^verbatim>\<open>detect_holiday_weeks\<close> returns no holiday week. The code keeps to it when
  there is no dated one-off record at all (lemma \<open>detect_no_dated_one_off\<close>), but not when
  such records exist and none of their dates parses: \<^verbatim>\<open>single_events_found\<close> is set
  before the date is parsed. The theorem evaluates the code on one one-off record dated
  31.02.2024 and the one-day range 2024-01-01: the collected set is empty and week 1 is
  reported as a holiday.
\<close>

theorem C1_malformed_date_marks_holiday:
  "ev_type malformed_one_off = ''single''
   \<and> strptime_date (fmt_opt (date malformed_one_off)) = None
   \<and> active_weeks_of [malformed_one_off] = {}
   \<and> detect_holiday_weeks [malformed_one_off] (ymd2ord 2024 1 1) (ymd2ord 2024 1 1) = Inr [1]"
proof -
  have a: "active_weeks_of [one_off ''31.02.2024''] = {}"
    by (simp add: active_weeks_of_Cons active_weeks_of_Nil one_off_fields fmt_opt_def
          strptime_date_examples)
  have "holiday_loop {} 738886 738886 [] = Inr [1]"
    by (simp add: holiday_loop_eq MAXORDINAL_def stride_dates_def iso_week_2024)
  then have "detect_holiday_weeks [one_off ''31.02.2024''] 738886 738886 = Inr [1]"
    by (simp add: detect_holiday_weeks_def collect_weeks_eq a one_off_fields truthy_def)
  then show ?thesis unfolding ymd2ord_2024 malformed_one_off_def using a
    by (simp add: one_off_fields fmt_opt_def strptime_date_examples)
qed

text \<open>
  C3 as stated fails at the end of the date range: with a one-off date that parses and a
  semester that ends on 9999-12-31, the step of seven days leaves the range of \<^verbatim>\<open>date\<close>
  and the function raises \<^verbatim>\<open>OverflowError\<close> instead of returning a list.
\<close>

theorem C3_counterexample:
  "ev_type (one_off ''09.01.2024'') = ''single''
   \<and> strptime_date (fmt_opt (date (one_off ''09.01.2024''))) = Some (ymd2ord 2024 1 9)
   \<and> detect_holiday_weeks [one_off ''09.01.2024''] (ymd2ord 9999 12 31) (ymd2ord 9999 12 31)
       = Inl OverflowError"
proof -
  have "holiday_loop A MAXORDINAL MAXORDINAL [] = Inl OverflowError" for A
    by (subst holiday_loop.simps) (simp add: date_add_def Let_def)
  then show ?thesis
    unfolding ymd2ord_2024
    by (simp add: detect_holiday_weeks_def collect_weeks_eq one_off_fields truthy_def fmt_opt_def
          strptime_date_examples)
qed


text \<open>
  C3, amended. When at least one one-off date parses, \<^verbatim>\<open>detect_holiday_weeks\<close> walks the
  range in steps of seven days from the start and returns the sorted list, without
  duplicates, of the ISO week numbers of the stride dates that are not in the active set;
  the one exception is a range that is not empty and whose last stride date is later than
  9999-12-24, where the step after the last stride leaves the range of \<^verbatim>\<open>date\<close> and the
  call raises \<^verbatim>\<open>OverflowError\<close>. With one-off sessions in the weeks 2, 4 and 6 and the
  range 2024-01-01 to 2024-02-11, whose strides fall in the weeks 1 to 6, the result is
  1, 3, 5; the range 9999-12-20 to 9999-12-25 gives week 51, and a range whose start is
  after its end gives the empty list (the witness).
\<close>

theorem C3_holiday_weeks:
  assumes "\<exists>e\<in>set events. ev_type e = ''single'' \<and> truthy (date e)
              \<and> strptime_date (fmt_opt (date e)) \<noteq> None"
  shows "detect_holiday_weeks events semester_start semester_end =
           (if semester_start \<le> semester_end
               \<and> MAXORDINAL < last_stride semester_start semester_end + 7
            then Inl OverflowError
            else Inr (sorted_list_of_set
                   (iso_week ` set (stride_dates semester_start semester_end)
                      - active_weeks_of events)))"
proof -
  have "\<exists>e\<in>set events. ev_type e = ''single'' \<and> truthy (date e)" using assms by blast
  then show ?thesis by (rule detect_exact)
qed

theorem C3_witness:
  "active_weeks_of weeks_2_4_6 = {2, 4, 6}
   \<and> map iso_week (stride_dates (ymd2ord 2024 1 1) (ymd2ord 2024 2 11)) = [1, 2, 3, 4, 5, 6]
   \<and> detect_holiday_weeks weeks_2_4_6 (ymd2ord 2024 1 1) (ymd2ord 2024 2 11) = Inr [1, 3, 5]
   \<and> detect_holiday_weeks weeks_2_4_6 (ymd2ord 9999 12 20) (ymd2ord 9999 12 25) = Inr [51]
   \<and> detect_holiday_weeks weeks_2_4_6 (ymd2ord 2024 2 11) (ymd2ord 2024 1 1) = Inr []"
proof -
  have h1: "\<exists>e\<in>set weeks_2_4_6. ev_type e = ''single'' \<and> truthy (date e)
              \<and> strptime_date (fmt_opt (date e)) \<noteq> None"
    by (simp add: weeks_2_4_6_def one_off_fields truthy_def fmt_opt_def strptime_date_examples)
  have w: "map iso_week (stride_dates 738886 738927) = [1, 2, 3, 4, 5, 6]"
    by (simp add: stride_2024 iso_week_2024)
  have "iso_week ` set (stride_dates 738886 738927) = {1, 2, 3, 4, 5, 6}"
    using arg_cong [OF w, of set] by (simp del: One_nat_def)
  then have s1: "iso_week ` set (stride_dates 738886 738927) - active_weeks_of weeks_2_4_6 = {1, 3, 5}"
    by (auto simp: active_2_4_6)
  have l1: "sorted_list_of_set {1, 3, 5 :: nat} = [1, 3, 5]"
    using sorted_list_of_set_sort_remdups [of "[1, 3, 5 :: nat]"] by simp
  have b1: "\<not> MAXORDINAL < last_stride 738886 738927 + 7"
    by (simp add: last_stride_def MAXORDINAL_def)
  have r1: "detect_holiday_weeks weeks_2_4_6 738886 738927 = Inr [1, 3, 5]"
    using C3_holiday_weeks [OF h1, of 738886 738927] b1 s1 l1 by simp
  have "stride_dates 3652048 3652053 = [3652048]"
    by (simp add: stride_dates_def)
  then have s2: "iso_week ` set (stride_dates 3652048 3652053) - active_weeks_of weeks_2_4_6 = {51}"
    by (simp add: iso_week_9999 active_2_4_6)
  have b2: "\<not> MAXORDINAL < last_stride 3652048 3652053 + 7"
    by (simp add: last_stride_def MAXORDINAL_def)
  have r2: "detect_holiday_weeks weeks_2_4_6 3652048 3652053 = Inr [51]"
    using C3_holiday_weeks [OF h1, of 3652048 3652053] b2 s2 by simp
  have r3: "detect_holiday_weeks weeks_2_4_6 738927 738886 = Inr []"
    using C3_holiday_weeks [OF h1, of 738927 738886] by (simp add: stride_dates_def)
  show ?thesis unfolding ymd2ord_2024 ymd2ord_9999 using w active_2_4_6 r1 r2 r3 by simp
qed

text \<open>
  C9. Prefix-filter round trip: extraction never fails, and for every record of the extracted
  collection, filtering the collection with that record's own identifier as the query
  returns a list that contains the record.
\<close>

theorem C9_prefix_filter_round_trip:
  "\<exists>all_events. extract_events text = Inr all_events
      \<and> (\<forall>e\<in>set all_events. e \<in> set (matched_events all_events (ev_id e)))"
proof -
  obtain evs where evs: "extract_events text = Inr evs" using extract_events_total by blast
  have "e \<in> set (matched_events evs (ev_id e))" if "e \<in> set evs" for e
    using extract_events_ids [OF evs that] that by (rule matched_events_own_id)
  then show ?thesis using evs by blast
qed

theorem C9_witness:
  "extract_events (sample_header @ CHR 0x0A # sample_line) = Inr [slot_a]
   \<and> slot_a \<in> set (matched_events [slot_a] (ev_id slot_a))"
  using C9_prefix_filter_round_trip [of "sample_header @ CHR 0x0A # sample_line"]
  by (simp add: extract_sample)

end
